theory Spec2Isabelle
  imports Main "HOL-Library.Word" "HOL-Library.AList"
begin

section \<open>Data: bytes, text, failures\<close>

text \<open>
  A Python \<open>bytes\<close> value is a list of 8-bit words; a Python \<open>str\<close> is a list of Unicode
  code points, the integers \<open>ord\<close> gives; Python integers are unbounded, hence \<open>int\<close>.
\<close>

type_synonym byte = "8 word"
type_synonym ustr = "int list"

definition lit :: "string \<Rightarrow> ustr" where
  "lit s = map of_char s"

text \<open>The exceptions the two scripts can meet; each is caught by \<open>except Exception\<close>.\<close>

datatype exn = StructError | ValueError | IndexError | UnicodeDecodeError
  | UnicodeEncodeError | SeekError

text \<open>
  Neither script has error classes: a file is given up by an early \<open>return\<close> after a
  message. A failure value names the message that is printed or logged first:
  \<open>Raised e\<close> is the \<open>except Exception\<close> handler (\<open>Error processing ...\<close>),
  \<open>InvalidMagic\<close> is \<open>Invalid MAGIC\<close>, \<open>TextCountZero\<close> is \<open>TEXT_COUNT is 0, skipping\<close>,
  \<open>IncompleteIndex\<close> is \<open>Incomplete index data\<close>, \<open>OrderingError\<close> is
  \<open>index ... out of order\<close> (\<open>parse_txt\<close> returns \<open>None, None\<close>), \<open>ParseFailed\<close> is
  \<open>Failed to parse\<close> and \<open>CountMismatch\<close> is \<open>Count mismatch in ...\<close>.
  In every case no output file is opened.
\<close>

datatype failure = Raised exn | InvalidMagic | TextCountZero | IncompleteIndex
  | OrderingError | ParseFailed | CountMismatch

definition bnd :: "failure + 'a \<Rightarrow> ('a \<Rightarrow> failure + 'b) \<Rightarrow> failure + 'b" where
  "bnd r f = (case r of Inl e \<Rightarrow> Inl e | Inr v \<Rightarrow> f v)"

definition raise :: "exn + 'a \<Rightarrow> failure + 'a" where
  "raise r = (case r of Inl e \<Rightarrow> Inl (Raised e) | Inr v \<Rightarrow> Inr v)"

definition Pad2Len :: nat where "Pad2Len = 128"
definition FileHeadLen :: nat where "FileHeadLen = 0x1C4"

section \<open>Python primitives used by the scripts\<close>

subsection \<open>Strings\<close>

text \<open>\<open>str.isspace\<close> on one code point: the set \<open>str.strip()\<close> removes.\<close>

definition is_space :: "int \<Rightarrow> bool" where
  "is_space cp \<longleftrightarrow>
     (9 \<le> cp \<and> cp \<le> 13) \<or> (28 \<le> cp \<and> cp \<le> 32) \<or> cp = 0x85 \<or> cp = 0xA0 \<or>
     cp = 0x1680 \<or> (0x2000 \<le> cp \<and> cp \<le> 0x200A) \<or> cp = 0x2028 \<or> cp = 0x2029 \<or>
     cp = 0x202F \<or> cp = 0x205F \<or> cp = 0x3000"

definition lstrip :: "ustr \<Rightarrow> ustr" where
  "lstrip s = dropWhile is_space s"

definition rstrip :: "ustr \<Rightarrow> ustr" where
  "rstrip s = rev (dropWhile is_space (rev s))"

definition strip :: "ustr \<Rightarrow> ustr" where
  "strip s = lstrip (rstrip s)"

text \<open>\<open>s.rstrip(chars)\<close> for a one-character set, and \<open>bytes.rstrip(b'\x00')\<close>.\<close>

definition rstrip_char :: "int \<Rightarrow> ustr \<Rightarrow> ustr" where
  "rstrip_char ch s = rev (dropWhile (\<lambda>x. x = ch) (rev s))"

definition rstrip_nul :: "byte list \<Rightarrow> byte list" where
  "rstrip_nul bs = rev (dropWhile (\<lambda>b. b = 0) (rev bs))"

definition startswith :: "ustr \<Rightarrow> ustr \<Rightarrow> bool" where
  "startswith s p \<longleftrightarrow> take (length p) s = p"

text \<open>\<open>s.split('=', 1)\<close> when \<open>'='\<close> occurs in \<open>s\<close>: the parts before and after the first one.\<close>

definition before_eq :: "ustr \<Rightarrow> ustr" where
  "before_eq s = takeWhile (\<lambda>x. x \<noteq> 61) s"

definition after_eq :: "ustr \<Rightarrow> ustr" where
  "after_eq s = drop 1 (dropWhile (\<lambda>x. x \<noteq> 61) s)"

subsection \<open>Integers and decimal text\<close>

text \<open>The decimal digits of a number that is not negative.\<close>

function dec_digits :: "int \<Rightarrow> ustr" where
  "dec_digits n = (if n < 10 then [48 + n] else dec_digits (n div 10) @ [48 + n mod 10])"
  by pat_completeness auto
termination
  by (relation "measure nat") auto

text \<open>\<open>str(n)\<close>, which is what \<open>f"{n}"\<close> writes.\<close>

definition py_str :: "int \<Rightarrow> ustr" where
  "py_str n = (if n < 0 then 45 # dec_digits (- n) else dec_digits n)"

text \<open>
  The code points with a Unicode decimal value, which is what \<open>int\<close> takes as digits:
  they come in runs of ten, each from a zero on, and the list holds the zeros (Unicode
  14.0, the table of Python 3.11).
\<close>

definition digit_zeros :: "int list" where
  "digit_zeros =
     [0x30, 0x660, 0x6F0, 0x7C0, 0x966, 0x9E6, 0xA66, 0xAE6, 0xB66, 0xBE6, 0xC66, 0xCE6,
     0xD66, 0xDE6, 0xE50, 0xED0, 0xF20, 0x1040, 0x1090, 0x17E0, 0x1810, 0x1946, 0x19D0,
     0x1A80, 0x1A90, 0x1B50, 0x1BB0, 0x1C40, 0x1C50, 0xA620, 0xA8D0, 0xA900, 0xA9D0,
     0xA9F0, 0xAA50, 0xABF0, 0xFF10, 0x104A0, 0x10D30, 0x11066, 0x110F0, 0x11136,
     0x111D0, 0x112F0, 0x11450, 0x114D0, 0x11650, 0x116C0, 0x11730, 0x118E0, 0x11950,
     0x11C50, 0x11D50, 0x11DA0, 0x16A60, 0x16AC0, 0x16B50, 0x1D7CE, 0x1D7D8, 0x1D7E2,
     0x1D7EC, 0x1D7F6, 0x1E140, 0x1E2F0, 0x1E950, 0x1FBF0]"

definition decimal_of :: "int \<Rightarrow> int option" where
  "decimal_of cp =
     map_option (\<lambda>z. cp - z) (find (\<lambda>z. z \<le> cp \<and> cp < z + 10) digit_zeros)"

text \<open>
  The whitespace that \<open>int\<close> skips around a number: the ASCII whitespace of C, and the
  Unicode whitespace from 127 on (the separators \<open>0x1C\<close> to \<open>0x1F\<close>, which \<open>strip\<close>
  removes, are not in it).
\<close>

definition int_space :: "int \<Rightarrow> bool" where
  "int_space cp \<longleftrightarrow> (9 \<le> cp \<and> cp \<le> 13) \<or> cp = 32 \<or> (127 \<le> cp \<and> is_space cp)"

text \<open>
  The digits after the first one, with single underscores between digits: their values,
  or \<open>None\<close> for a character that is neither, two underscores in a row or an underscore
  at the end.
\<close>

fun digit_run :: "ustr \<Rightarrow> int list option" where
  "digit_run [] = Some []"
| "digit_run (ch # cs) =
     (case decimal_of ch of
        Some d \<Rightarrow> map_option ((#) d) (digit_run cs)
      | None \<Rightarrow>
          if ch = 95 then
            (case cs of [] \<Rightarrow> None
             | x # _ \<Rightarrow> (case decimal_of x of None \<Rightarrow> None | Some _ \<Rightarrow> digit_run cs))
          else None)"

text \<open>
  A number without its sign: at least one digit, and not more than 4300 of them (the
  default limit of \<open>sys.set_int_max_str_digits\<close>).
\<close>

definition parse_digits :: "ustr \<Rightarrow> int option" where
  "parse_digits s =
     (case s of [] \<Rightarrow> None
      | ch # cs \<Rightarrow>
          (case decimal_of ch of None \<Rightarrow> None
           | Some d \<Rightarrow>
               (case digit_run cs of None \<Rightarrow> None
                | Some ds \<Rightarrow>
                    if int (length ds) < 4300 then Some (foldl (\<lambda>a x. 10 * a + x) d ds)
                    else None)))"

text \<open>
  \<open>int(s)\<close> on a string: the whitespace around the number is skipped, one sign is
  allowed, then come decimal digits (of any script) with single underscores between
  them; anything else raises \<open>ValueError\<close> (\<open>None\<close>).
\<close>

definition py_int :: "ustr \<Rightarrow> int option" where
  "py_int s =
     (case rev (dropWhile int_space (rev (dropWhile int_space s))) of [] \<Rightarrow> None
      | ch # cs \<Rightarrow>
          if ch = 45 then map_option uminus (parse_digits cs)
          else if ch = 43 then parse_digits cs
          else parse_digits (ch # cs))"

subsection \<open>Slices and file reads\<close>

text \<open>\<open>xs[a:b]\<close>: a negative bound counts from the end, and both are clamped to the list.\<close>

definition slice_bound :: "nat \<Rightarrow> int \<Rightarrow> nat" where
  "slice_bound n i = (if i < 0 then nat (int n + i) else min n (nat i))"

definition py_slice :: "'a list \<Rightarrow> int \<Rightarrow> int \<Rightarrow> 'a list" where
  "py_slice xs a b =
     (let lo = slice_bound (length xs) a; hi = slice_bound (length xs) b
      in take (hi - lo) (drop lo xs))"

text \<open>
  \<open>f.seek(pos); f.read(n)\<close> on a binary file holding \<open>fb\<close>. A length below \<open>-1\<close> raises
  \<open>ValueError\<close>. Otherwise the read returns \<open>read_bytes fb pos n\<close>: at most \<open>n\<close> bytes
  from \<open>pos\<close> on (fewer when the file is short, none when \<open>pos\<close> is past the end), and
  for \<open>n = -1\<close> all the bytes from \<open>pos\<close> to the end.
\<close>

definition read_bytes :: "byte list \<Rightarrow> nat \<Rightarrow> int \<Rightarrow> byte list" where
  "read_bytes fb pos n = (if n < 0 then drop pos fb else take (nat n) (drop pos fb))"

definition f_read :: "byte list \<Rightarrow> nat \<Rightarrow> int \<Rightarrow> exn + byte list" where
  "f_read fb pos n = (if n < - 1 then Inl ValueError else Inr (read_bytes fb pos n))"

subsection \<open>struct\<close>

definition le_u32 :: "byte list \<Rightarrow> int" where
  "le_u32 bs = foldr (\<lambda>b acc. uint b + 256 * acc) bs 0"

definition le_bytes32 :: "int \<Rightarrow> byte list" where
  "le_bytes32 v = [word_of_int v, word_of_int (v div 256),
                   word_of_int (v div 65536), word_of_int (v div 16777216)]"

text \<open>\<open>struct.unpack('<i', bs)\<close> and \<open>struct.pack('<i', v)\<close>; \<open>'<I'\<close> likewise, unsigned.\<close>

definition unpack_i32 :: "byte list \<Rightarrow> exn + int" where
  "unpack_i32 bs =
     (if length bs = 4
      then Inr (let v = le_u32 bs in if v \<ge> 2 ^ 31 then v - 2 ^ 32 else v)
      else Inl StructError)"

definition pack_i32 :: "int \<Rightarrow> exn + byte list" where
  "pack_i32 v =
     (if - (2 ^ 31) \<le> v \<and> v < 2 ^ 31 then Inr (le_bytes32 (v mod 2 ^ 32))
      else Inl StructError)"

definition pack_u32 :: "int \<Rightarrow> exn + byte list" where
  "pack_u32 v = (if 0 \<le> v \<and> v < 2 ^ 32 then Inr (le_bytes32 v) else Inl StructError)"

text \<open>\<open>struct.unpack('<II', bs)\<close>: exactly eight bytes.\<close>

definition unpack_II :: "byte list \<Rightarrow> exn + (int \<times> int)" where
  "unpack_II bs =
     (if length bs = 8 then Inr (le_u32 (take 4 bs), le_u32 (drop 4 bs))
      else Inl StructError)"

text \<open>
  \<open>struct.unpack_from\<close> and \<open>struct.pack_into\<close> at an offset: a negative offset counts
  from the end of the buffer, and the eight bytes must lie inside it.
\<close>

definition buf_offset :: "nat \<Rightarrow> int \<Rightarrow> exn + nat" where
  "buf_offset n off =
     (let o' = (if off < 0 then off + int n else off)
      in if o' < 0 \<or> int n - o' < 8 then Inl StructError else Inr (nat o'))"

definition unpack_from_II :: "byte list \<Rightarrow> int \<Rightarrow> exn + (int \<times> int)" where
  "unpack_from_II buf off =
     (case buf_offset (length buf) off of Inl e \<Rightarrow> Inl e
      | Inr p \<Rightarrow> unpack_II (take 8 (drop p buf)))"

definition pack_into_II :: "byte list \<Rightarrow> int \<Rightarrow> int \<Rightarrow> int \<Rightarrow> exn + byte list" where
  "pack_into_II buf off a b =
     (case buf_offset (length buf) off of Inl e \<Rightarrow> Inl e
      | Inr p \<Rightarrow>
         (case pack_u32 a of Inl e \<Rightarrow> Inl e
          | Inr ba \<Rightarrow>
             (case pack_u32 b of Inl e \<Rightarrow> Inl e
              | Inr bb \<Rightarrow> Inr (take p buf @ ba @ bb @ drop (p + 8) buf))))"

text \<open>The \<open>s\<close> format on packing: cut or NUL-padded to its width.\<close>

definition pack_s :: "nat \<Rightarrow> byte list \<Rightarrow> byte list" where
  "pack_s n bs = take n bs @ replicate (n - length bs) 0"

subsection \<open>Text codecs\<close>

text \<open>
  The cp932 tables belong to the Python runtime, not to this repository, so the codec
  is a parameter: \<open>dec_one c bs\<close> is the character at the front of the non-empty input
  \<open>bs\<close> with the number of bytes it takes, or \<open>None\<close> where no character starts;
  \<open>enc_one c cp\<close> is the encoding of one code point, or \<open>None\<close>. What the scripts choose is
  the error policy, and that is modelled in full: \<open>strict\<close> raises, \<open>replace\<close> puts
  U+FFFD (decoding) or \<open>?\<close> (encoding) for the offending unit, \<open>ignore\<close> drops it.
\<close>

record codec =
  dec_one :: "byte list \<Rightarrow> (int \<times> nat) option"
  enc_one :: "int \<Rightarrow> byte list option"

datatype errors = Strict | Replace | Ignore

function decode_text :: "codec \<Rightarrow> errors \<Rightarrow> byte list \<Rightarrow> exn + ustr" where
  "decode_text c m [] = Inr []"
| "decode_text c m (b # bs) =
     (case dec_one c (b # bs) of
        Some (cp, n) \<Rightarrow>
          (case decode_text c m (drop (n - 1) bs) of
             Inl e \<Rightarrow> Inl e | Inr s \<Rightarrow> Inr (cp # s))
      | None \<Rightarrow>
          (case m of
             Strict \<Rightarrow> Inl UnicodeDecodeError
           | Replace \<Rightarrow>
               (case decode_text c m bs of Inl e \<Rightarrow> Inl e | Inr s \<Rightarrow> Inr (0xFFFD # s))
           | Ignore \<Rightarrow> decode_text c m bs))"
  by pat_completeness auto
termination
  by (relation "measure (\<lambda>(c, m, bs). length bs)") auto

fun encode_text :: "codec \<Rightarrow> errors \<Rightarrow> ustr \<Rightarrow> exn + byte list" where
  "encode_text c m [] = Inr []"
| "encode_text c m (cp # s) =
     (case enc_one c cp of
        Some bs \<Rightarrow>
          (case encode_text c m s of Inl e \<Rightarrow> Inl e | Inr r \<Rightarrow> Inr (bs @ r))
      | None \<Rightarrow>
          (case m of
             Strict \<Rightarrow> Inl UnicodeEncodeError
           | Replace \<Rightarrow>
               (case encode_text c m s of Inl e \<Rightarrow> Inl e | Inr r \<Rightarrow> Inr (0x3F # r))
           | Ignore \<Rightarrow> encode_text c m s))"

text \<open>\<open>bs.decode('ascii')\<close>, strict.\<close>

definition ascii_decode :: "byte list \<Rightarrow> exn + ustr" where
  "ascii_decode bs =
     (if \<forall>b \<in> set bs. b < 0x80 then Inr (map uint bs) else Inl UnicodeDecodeError)"

text \<open>
  The 7-bit range, where cp932 is ASCII: the codec the concrete examples run with.
  Everything outside that range counts as undecodable here. The examples stay inside
  it, but for one byte \<open>0x81\<close> at the end of a slice: a lead byte with no trail byte,
  which cp932 cannot decode either.
\<close>

definition ascii_range :: codec where
  "ascii_range =
     \<lparr>dec_one = (\<lambda>bs. case bs of [] \<Rightarrow> None
                 | b # _ \<Rightarrow> if b < 0x80 then Some (uint b, 1) else None),
      enc_one = (\<lambda>cp. if 0 \<le> cp \<and> cp < 0x80 then Some [word_of_int cp] else None)\<rparr>"

section \<open>The container header\<close>

text \<open>The sixteen items of the format \<open><16s13i128s256s\<close>, in order.\<close>

record scw_header =
  magic :: "byte list"
  main_v :: int
  is_compressed :: int
  content_len :: int
  comp_len :: int
  minor_v :: int
  cmd_count :: int
  str_count :: int
  addon_count :: int
  cmd_size :: int
  str_size :: int
  addon_size :: int
  pad1 :: int
  text_count :: int
  pad2 :: "byte list"
  desc :: "byte list"

definition s32_at :: "byte list \<Rightarrow> nat \<Rightarrow> int" where
  "s32_at bs off =
     (let v = le_u32 (take 4 (drop off bs)) in if v \<ge> 2 ^ 31 then v - 2 ^ 32 else v)"

definition unpack_header :: "byte list \<Rightarrow> exn + scw_header" where
  "unpack_header header_data =
     (if length header_data \<noteq> 16 + 13 * 4 + Pad2Len + 256 then Inl StructError
      else Inr \<lparr>magic = take 16 header_data,
                main_v = s32_at header_data 16, is_compressed = s32_at header_data 20,
                content_len = s32_at header_data 24, comp_len = s32_at header_data 28,
                minor_v = s32_at header_data 32, cmd_count = s32_at header_data 36,
                str_count = s32_at header_data 40, addon_count = s32_at header_data 44,
                cmd_size = s32_at header_data 48, str_size = s32_at header_data 52,
                addon_size = s32_at header_data 56, pad1 = s32_at header_data 60,
                text_count = s32_at header_data 64,
                pad2 = take Pad2Len (drop 68 header_data),
                desc = take 256 (drop (68 + Pad2Len) header_data)\<rparr>)"

definition header_ints :: "scw_header \<Rightarrow> int list" where
  "header_ints h = [main_v h, is_compressed h, content_len h, comp_len h, minor_v h,
     cmd_count h, str_count h, addon_count h, cmd_size h, str_size h, addon_size h,
     pad1 h, text_count h]"

definition in_i32 :: "int \<Rightarrow> bool" where
  "in_i32 v \<longleftrightarrow> - (2 ^ 31) \<le> v \<and> v < 2 ^ 31"

definition pack_header :: "scw_header \<Rightarrow> exn + byte list" where
  "pack_header h =
     (if list_all in_i32 (header_ints h)
      then Inr (pack_s 16 (magic h)
                @ concat (map (\<lambda>v. le_bytes32 (v mod 2 ^ 32)) (header_ints h))
                @ pack_s Pad2Len (pad2 h) @ pack_s 256 (desc h))
      else Inl StructError)"

text \<open>\<open>range(n)\<close> and \<open>xs[i]\<close>.\<close>

definition py_range :: "int \<Rightarrow> int list" where
  "py_range n = map int [0..<nat n]"

definition py_index :: "'a list \<Rightarrow> int \<Rightarrow> exn + 'a" where
  "py_index xs i =
     (if 0 \<le> i \<and> i < int (length xs) then Inr (xs ! nat i)
      else if i < 0 \<and> - int (length xs) \<le> i then Inr (xs ! nat (int (length xs) + i))
      else Inl IndexError)"

section \<open>Extraction: \<open>extract_scw_file\<close>\<close>

definition read_i32 :: "byte list \<Rightarrow> nat \<Rightarrow> failure + int" where
  "read_i32 fb pos = bnd (raise (f_read fb pos 4)) (\<lambda>bs. raise (unpack_i32 bs))"

text \<open>
  The \<open>try\<close> around the decoding of one slice. With \<open>errors='replace'\<close> the handler is
  written exactly as in the source: a \<open>UnicodeDecodeError\<close> gives the marker string.
\<close>

definition decode_slice :: "codec \<Rightarrow> byte list \<Rightarrow> ustr" where
  "decode_slice c data =
     (case decode_text c Replace (rstrip_nul data) of
        Inr s \<Rightarrow> s
      | Inl e \<Rightarrow> lit ''<DECODE_ERROR>'')"

text \<open>
  The loop \<open>for i in range(string_count)\<close>; the list argument is the part of the range
  still to run, \<open>strings\<close> the list built so far. The first branch is the \<open>break\<close>.
\<close>

fun extract_loop ::
  "codec \<Rightarrow> byte list \<Rightarrow> byte list \<Rightarrow> int \<Rightarrow> int \<Rightarrow> int list \<Rightarrow> ustr list
     \<Rightarrow> failure + ustr list" where
  "extract_loop c fb index_data sss cc [] strs = Inr strs"
| "extract_loop c fb index_data sss cc (i # rest) strs =
     (let idx_offset = (cc + i) * 8 in
      if idx_offset + 8 > int (length index_data) then Inr strs
      else
        (case unpack_II (py_slice index_data idx_offset (idx_offset + 8)) of
           Inl e \<Rightarrow> Inl (Raised e)
         | Inr (start, len) \<Rightarrow>
             (let abs_pos = sss + start in
              if abs_pos < 0 then Inl (Raised SeekError)
              else
                (case f_read fb (nat abs_pos) len of
                   Inl e \<Rightarrow> Inl (Raised e)
                 | Inr data \<Rightarrow>
                     extract_loop c fb index_data sss cc rest
                       (strs @ [decode_slice c data])))))"

text \<open>
  Everything \<open>extract_scw_file\<close> computes before it opens the output file:
  \<open>string_count\<close>, \<open>text_count\<close>, \<open>description\<close> and the extracted strings.
\<close>

definition extract_parts ::
  "codec \<Rightarrow> byte list \<Rightarrow> failure + (int \<times> int \<times> ustr \<times> ustr list)" where
  "extract_parts c fb =
     bnd (raise (f_read fb 0 16)) (\<lambda>magic_bytes.
     bnd (raise (ascii_decode (rstrip_nul magic_bytes))) (\<lambda>mgc.
     if mgc \<noteq> lit ''Scw4.x'' then Inl InvalidMagic else
     bnd (read_i32 fb 16) (\<lambda>main_version.
     bnd (read_i32 fb 20) (\<lambda>is_compressed.
     bnd (read_i32 fb 24) (\<lambda>content_length.
     bnd (read_i32 fb 28) (\<lambda>compressed_len.
     bnd (read_i32 fb 32) (\<lambda>minor_version.
     bnd (read_i32 fb 36) (\<lambda>command_count.
     bnd (read_i32 fb 40) (\<lambda>string_count.
     bnd (read_i32 fb 44) (\<lambda>addon_count.
     bnd (read_i32 fb 48) (\<lambda>command_size.
     bnd (read_i32 fb 52) (\<lambda>string_size.
     bnd (read_i32 fb 56) (\<lambda>addon_size.
     bnd (read_i32 fb 60) (\<lambda>padding1.
     bnd (read_i32 fb 64) (\<lambda>text_count.
     bnd (raise (f_read fb 68 (int Pad2Len))) (\<lambda>padding2.
     bnd (raise (f_read fb (68 + Pad2Len) 0x100)) (\<lambda>description_bytes.
     bnd (raise (decode_text c Ignore
            (takeWhile (\<lambda>b. b \<noteq> 0) description_bytes))) (\<lambda>d.
     let description = strip d in
     if text_count = 0 then Inl TextCountZero else
     let index_size = (command_count + string_count + addon_count) * 8 in
     bnd (raise (f_read fb FileHeadLen index_size)) (\<lambda>index_data.
     if int (length index_data) \<noteq> index_size then Inl IncompleteIndex else
     let string_section_start = int FileHeadLen + index_size + command_size in
     bnd (extract_loop c fb index_data string_section_start command_count
            (py_range string_count) []) (\<lambda>strs.
     Inr (string_count, text_count, description, strs)))))))))))))))))))))"

text \<open>The text written to \<open>{file_path}.txt\<close>.\<close>

definition render_section :: "int \<times> ustr \<Rightarrow> ustr" where
  "render_section p =
     lit ''[Index='' @ py_str (fst p) @ lit '']'' @ [10] @ snd p @ [10, 10]"

definition render_document :: "int \<Rightarrow> int \<Rightarrow> ustr \<Rightarrow> ustr list \<Rightarrow> ustr" where
  "render_document n_strings n_texts description strs =
     lit ''[Header]'' @ [10] @ lit ''STRING_COUNT = '' @ py_str n_strings @ [10]
     @ lit ''TEXT_COUNT = '' @ py_str n_texts @ [10]
     @ lit ''FILE_DESCRIPTION = '' @ description @ [10, 10]
     @ concat (map render_section (zip (map int [1..<Suc (length strs)]) strs))"

text \<open>\<open>Inr doc\<close>: the document is written with content \<open>doc\<close>; \<open>Inl f\<close>: none is written.\<close>

definition extract_scw_file :: "codec \<Rightarrow> byte list \<Rightarrow> failure + ustr" where
  "extract_scw_file c fb =
     (case extract_parts c fb of
        Inl f \<Rightarrow> Inl f
      | Inr (n_strings, n_texts, description, strs) \<Rightarrow>
          Inr (render_document n_strings n_texts description strs))"

section \<open>The text document: \<open>parse_txt\<close>\<close>

text \<open>
  Iterating over a file opened in text mode: \<open>\r\n\<close> and a lone \<open>\r\<close> are read as
  \<open>\n\<close>, and each line is yielded with its \<open>\n\<close> (a last line may have none). The
  argument is the text of the file after UTF-8 decoding.
\<close>

fun universal_newlines :: "ustr \<Rightarrow> ustr" where
  "universal_newlines [] = []"
| "universal_newlines (ch # cs) =
     (if ch = 13 then
        (case cs of [] \<Rightarrow> [10]
         | d # ds \<Rightarrow> if d = 10 then 10 # universal_newlines ds
                     else 10 # universal_newlines cs)
      else ch # universal_newlines cs)"

fun lines_from :: "ustr \<Rightarrow> ustr \<Rightarrow> ustr list" where
  "lines_from cur [] = (if cur = [] then [] else [cur])"
| "lines_from cur (ch # cs) =
     (if ch = 10 then (cur @ [10]) # lines_from [] cs else lines_from (cur @ [ch]) cs)"

definition file_lines :: "ustr \<Rightarrow> ustr list" where
  "file_lines txt = lines_from [] (universal_newlines txt)"

datatype section_kind = SecHeader | SecIndex

text \<open>The four local variables of \<open>parse_txt\<close>; the dictionary is a list of pairs.\<close>

record pstate =
  strings :: "ustr list"
  header :: "(ustr \<times> ustr) list"
  current_index :: "int option"
  current_section :: "section_kind option"

definition init_pstate :: pstate where
  "init_pstate = \<lparr>strings = [], header = [], current_index = None, current_section = None\<rparr>"

text \<open>
  One turn of the loop body on the raw line. \<open>Inl OrderingError\<close> is \<open>return None, None\<close>;
  \<open>Inl (Raised ValueError)\<close> is \<open>int(index_part)\<close> failing.
\<close>

definition parse_line :: "pstate \<Rightarrow> ustr \<Rightarrow> failure + pstate" where
  "parse_line st raw =
     (let line = strip raw in
      if line = [] then Inr st
      else if startswith line (lit ''['') then
        (if line = lit ''[Header]'' then Inr (st\<lparr>current_section := Some SecHeader\<rparr>)
         else if startswith line (lit ''[Index='') then
           (let index_part = rstrip_char 93 (after_eq line) in
            case py_int index_part of
              None \<Rightarrow> Inl (Raised ValueError)
            | Some n \<Rightarrow>
                if n \<noteq> int (length (strings st)) + 1 then Inl OrderingError
                else Inr (st\<lparr>current_section := Some SecIndex, current_index := Some n,
                              strings := strings st @ [[]]\<rparr>))
         else Inr (st\<lparr>current_section := None\<rparr>))
      else
        (case current_section st of
           Some SecHeader \<Rightarrow>
             if 61 \<in> set line
             then Inr (st\<lparr>header :=
                    AList.update (strip (before_eq line)) (strip (after_eq line)) (header st)\<rparr>)
             else Inr st
         | Some SecIndex \<Rightarrow>
             (case current_index st of
                None \<Rightarrow> Inr st
              | Some ci \<Rightarrow>
                  if 1 \<le> ci \<and> ci \<le> int (length (strings st)) then
                    (let k = nat (ci - 1); old = strings st ! k
                     in Inr (st\<lparr>strings := (strings st)
                          [k := (if old \<noteq> [] then old @ [10] @ line else line)]\<rparr>))
                  else Inr st)
         | None \<Rightarrow> Inr st))"

fun parse_loop :: "pstate \<Rightarrow> ustr list \<Rightarrow> failure + pstate" where
  "parse_loop st [] = Inr st"
| "parse_loop st (raw # rest) =
     (case parse_line st raw of Inl f \<Rightarrow> Inl f | Inr st' \<Rightarrow> parse_loop st' rest)"

definition parse_txt :: "ustr \<Rightarrow> failure + ((ustr \<times> ustr) list \<times> ustr list)" where
  "parse_txt txt =
     (case parse_loop init_pstate (file_lines txt) of
        Inl f \<Rightarrow> Inl f
      | Inr st \<Rightarrow> Inr (header st, strings st))"

section \<open>Rebuilding: \<open>process_scw\<close>\<close>

text \<open>\<open>int(header_txt.get(key, -1))\<close>.\<close>

definition declared_count :: "(ustr \<times> ustr) list \<Rightarrow> ustr \<Rightarrow> exn + int" where
  "declared_count header_txt key =
     (case map_of header_txt key of
        None \<Rightarrow> Inr (- 1)
      | Some v \<Rightarrow> (case py_int v of None \<Rightarrow> Inl ValueError | Some n \<Rightarrow> Inr n))"

text \<open>The body of the encoding loop: strict first, \<open>errors='replace'\<close> in the handler.\<close>

definition encode_string :: "codec \<Rightarrow> ustr \<Rightarrow> exn + byte list" where
  "encode_string c s =
     (case encode_text c Strict s of
        Inr bs \<Rightarrow> Inr (bs @ [0])
      | Inl e \<Rightarrow>
          (case encode_text c Replace s of
             Inr bs \<Rightarrow> Inr (bs @ [0])
           | Inl e' \<Rightarrow> Inl e'))"

fun encode_all :: "codec \<Rightarrow> ustr list \<Rightarrow> exn + byte list list" where
  "encode_all c [] = Inr []"
| "encode_all c (s # rest) =
     (case encode_string c s of
        Inl e \<Rightarrow> Inl e
      | Inr bs \<Rightarrow> (case encode_all c rest of Inl e \<Rightarrow> Inl e | Inr r \<Rightarrow> Inr (bs # r)))"

text \<open>
  The loop that rewrites the string entries of the index; the state is
  \<open>(new_index, current_offset)\<close>, the list the part of \<open>range(str_count)\<close> still to run.
\<close>

fun patch_index ::
  "byte list list \<Rightarrow> int \<Rightarrow> int list \<Rightarrow> byte list \<times> int \<Rightarrow> failure + (byte list \<times> int)" where
  "patch_index new_str_list str_index_start [] st = Inr st"
| "patch_index new_str_list str_index_start (i # rest) st =
     (let new_index = fst st; current_offset = snd st;
          entry_offset = str_index_start + i * 8 in
      case unpack_from_II new_index entry_offset of
        Inl e \<Rightarrow> Inl (Raised e)
      | Inr old \<Rightarrow>
          (case py_index new_str_list i of
             Inl e \<Rightarrow> Inl (Raised e)
           | Inr enc \<Rightarrow>
               (let new_length = int (length enc) in
                case pack_into_II new_index entry_offset current_offset new_length of
                  Inl e \<Rightarrow> Inl (Raised e)
                | Inr new_index' \<Rightarrow>
                    patch_index new_str_list str_index_start rest
                      (new_index', current_offset + new_length))))"

text \<open>The four slices of the content area.\<close>

definition index_size_of :: "scw_header \<Rightarrow> int" where
  "index_size_of h = (cmd_count h + str_count h + addon_count h) * 8"

definition index_data_of :: "scw_header \<Rightarrow> byte list \<Rightarrow> byte list" where
  "index_data_of h content = py_slice content 0 (index_size_of h)"

definition cmd_data_of :: "scw_header \<Rightarrow> byte list \<Rightarrow> byte list" where
  "cmd_data_of h content =
     py_slice content (index_size_of h) (index_size_of h + cmd_size h)"

definition str_data_of :: "scw_header \<Rightarrow> byte list \<Rightarrow> byte list" where
  "str_data_of h content =
     py_slice content (index_size_of h + cmd_size h)
       (index_size_of h + cmd_size h + str_size h)"

definition addon_data_of :: "scw_header \<Rightarrow> byte list \<Rightarrow> byte list" where
  "addon_data_of h content =
     py_slice content (index_size_of h + cmd_size h + str_size h)
       (index_size_of h + cmd_size h + str_size h + addon_size h)"

text \<open>
  \<open>process_scw\<close> on the bytes of the original container and the text of the document.
  \<open>Inr out\<close>: the output file is written with the bytes \<open>out\<close> and \<open>True\<close> is returned;
  \<open>Inl f\<close>: \<open>False\<close> is returned and no output file is opened.
\<close>

definition process_scw :: "codec \<Rightarrow> byte list \<Rightarrow> ustr \<Rightarrow> failure + byte list" where
  "process_scw c fb txt =
     bnd (raise (f_read fb 0 (int FileHeadLen))) (\<lambda>header_data.
     bnd (raise (unpack_header header_data)) (\<lambda>h.
     bnd (raise (f_read fb FileHeadLen (content_len h))) (\<lambda>content.
     let index_data = index_data_of h content;
         cmd_data = cmd_data_of h content;
         str_data = str_data_of h content;
         addon_data = addon_data_of h content in
     bnd (parse_txt txt) (\<lambda>parsed.
     let header_txt = fst parsed; new_strings = snd parsed in
     if header_txt = [] \<or> new_strings = [] then Inl ParseFailed else
     bnd (raise (declared_count header_txt (lit ''STRING_COUNT''))) (\<lambda>str_count_txt.
     bnd (raise (declared_count header_txt (lit ''TEXT_COUNT''))) (\<lambda>text_count_txt.
     if str_count_txt \<noteq> str_count h \<or> text_count_txt \<noteq> text_count h
     then Inl CountMismatch else
     bnd (raise (encode_all c new_strings)) (\<lambda>new_str_list.
     let new_str_data = concat new_str_list;
         new_str_size = int (length new_str_data);
         str_index_start = cmd_count h * 8 in
     bnd (patch_index new_str_list str_index_start (py_range (str_count h))
            (index_data, 0)) (\<lambda>patched.
     let new_index = fst patched;
         new_content = new_index @ cmd_data @ new_str_data @ addon_data;
         new_content_len = int (length new_content) in
     bnd (raise (pack_header
            (h\<lparr>content_len := new_content_len, str_size := new_str_size\<rparr>)))
       (\<lambda>packed_header.
     Inr (packed_header @ new_content))))))))))"

text \<open>Decode, rebuild from the unmodified document, decode again.\<close>

definition round_trip ::
  "codec \<Rightarrow> byte list \<Rightarrow> failure + (int \<times> int \<times> ustr \<times> ustr list)" where
  "round_trip c fb =
     bnd (extract_scw_file c fb) (\<lambda>doc.
     bnd (process_scw c fb doc) (\<lambda>out. extract_parts c out))"

section \<open>Auxiliary notions for stating the properties\<close>

text \<open>
  The index entry of string \<open>i\<close> as it lies in the file: two little-endian unsigned
  32-bit numbers, start and length, at offset \<open>FileHeadLen + 8 * (command_count + i)\<close>.
\<close>

definition string_entry :: "byte list \<Rightarrow> int \<Rightarrow> nat \<Rightarrow> int \<times> int" where
  "string_entry fb command_count i =
     (let p = FileHeadLen + (nat command_count + i) * 8
      in (le_u32 (read_bytes fb p 4), le_u32 (read_bytes fb (p + 4) 4)))"

text \<open>The \<open>description\<close> that \<open>extract_scw_file\<close> computes from the header.\<close>

definition description_of :: "codec \<Rightarrow> byte list \<Rightarrow> ustr" where
  "description_of c fb =
     strip (case decode_text c Ignore (takeWhile (\<lambda>b. b \<noteq> 0) (read_bytes fb (68 + Pad2Len) 0x100)) of
              Inr d \<Rightarrow> d | Inl e \<Rightarrow> [])"

text \<open>Entry \<open>k\<close> of an index table given as bytes.\<close>

definition entry_in :: "byte list \<Rightarrow> nat \<Rightarrow> int \<times> int" where
  "entry_in idx k = (le_u32 (take 4 (drop (k * 8) idx)), le_u32 (take 4 (drop (k * 8 + 4) idx)))"

text \<open>
  A raw line that \<open>parse_txt\<close> takes as an \<open>[Index=\<close> header, and the position it
  declares (\<open>None\<close> when \<open>int\<close> rejects the text after \<open>=\<close>).
\<close>

definition index_line :: "ustr \<Rightarrow> bool" where
  "index_line raw \<longleftrightarrow>
     strip raw \<noteq> lit ''[Header]'' \<and> startswith (strip raw) (lit ''[Index='')"

definition declared_index :: "ustr \<Rightarrow> int option" where
  "declared_index raw = py_int (rstrip_char 93 (after_eq (strip raw)))"

definition declared_indices :: "ustr list \<Rightarrow> int list" where
  "declared_indices ls =
     List.map_filter (\<lambda>l. if index_line l then declared_index l else None) ls"

text \<open>A raw line that opens a section the parser does not know.\<close>

definition unknown_section_line :: "ustr \<Rightarrow> bool" where
  "unknown_section_line raw \<longleftrightarrow>
     startswith (strip raw) (lit ''['') \<and> strip raw \<noteq> lit ''[Header]''
     \<and> \<not> startswith (strip raw) (lit ''[Index='')"

text \<open>\<open>s.split('\n')\<close>.\<close>

fun split_from :: "ustr \<Rightarrow> ustr \<Rightarrow> ustr list" where
  "split_from cur [] = [cur]"
| "split_from cur (ch # cs) =
     (if ch = 10 then cur # split_from [] cs else split_from (cur @ [ch]) cs)"

definition split_nl :: "ustr \<Rightarrow> ustr list" where
  "split_nl s = split_from [] s"

text \<open>
  A line as the parser keeps it: not empty, no whitespace at either end, not opening
  with a bracket.
\<close>

definition kept_line :: "ustr \<Rightarrow> bool" where
  "kept_line l \<longleftrightarrow> l \<noteq> [] \<and> strip l = l \<and> \<not> startswith l (lit ''['')"

text \<open>A string made of kept lines only, or the empty string.\<close>

definition kept_string :: "ustr \<Rightarrow> bool" where
  "kept_string s \<longleftrightarrow> s = [] \<or> list_all kept_line (split_nl s)"

text \<open>The total length of the first \<open>i\<close> encoded strings.\<close>

definition cumulative_length :: "byte list list \<Rightarrow> nat \<Rightarrow> int" where
  "cumulative_length encs i = int (length (concat (take i encs)))"

text \<open>
  What the index loop has done to the buffer when it has run over the entries \<open>a\<close> to
  \<open>b - 1\<close> of a string group that starts at byte \<open>s\<close>: used to state the loop's
  invariant.
\<close>

definition patched ::
  "byte list list \<Rightarrow> nat \<Rightarrow> nat \<Rightarrow> nat \<Rightarrow> byte list \<Rightarrow> byte list \<Rightarrow> int \<Rightarrow> bool" where
  "patched nsl s a b buf buf' off' \<longleftrightarrow>
     length buf' = length buf
     \<and> off' = cumulative_length nsl (max a b)
     \<and> (a < b \<longrightarrow> b \<le> length nsl \<and> s + b * 8 \<le> length buf)
     \<and> take (s + a * 8) buf' = take (s + a * 8) buf
     \<and> drop (s + (max a b) * 8) buf' = drop (s + (max a b) * 8) buf
     \<and> (\<forall>i. a \<le> i \<and> i < b \<longrightarrow>
           take 8 (drop (s + i * 8) buf')
             = le_bytes32 (cumulative_length nsl i) @ le_bytes32 (int (length (nsl ! i)))
           \<and> 0 \<le> cumulative_length nsl i \<and> cumulative_length nsl i < 2 ^ 32
           \<and> int (length (nsl ! i)) < 2 ^ 32)"

subsection \<open>Concrete containers\<close>

text \<open>
  A container with the magic \<open>Scw4.x\<close>, the thirteen header integers \<open>ints\<close>, a zero
  \<open>padding2\<close>, an empty description and the content area \<open>content\<close>.
\<close>

definition scw_bytes :: "int list \<Rightarrow> byte list \<Rightarrow> byte list" where
  "scw_bytes ints content =
     map of_char ''Scw4.x'' @ replicate 10 0
     @ concat (map (\<lambda>v. le_bytes32 (v mod 2 ^ 32)) ints)
     @ replicate 128 0 @ replicate 256 0 @ content"

text \<open>
  The scenario of the specification: no commands, no addons, two strings with the
  entries \<open>(0, 6)\<close> and \<open>(6, 6)\<close> over the string region \<open>AB\0\0\0\0CD\0\0\0\0\<close>.
\<close>

definition scenario_container :: "byte list" where
  "scenario_container =
     scw_bytes [1, 0, 28, 0, 0, 0, 2, 0, 0, 12, 0, 0, 2]
       (le_bytes32 0 @ le_bytes32 6 @ le_bytes32 6 @ le_bytes32 6
        @ [0x41, 0x42, 0, 0, 0, 0, 0x43, 0x44, 0, 0, 0, 0])"

definition scenario_header :: scw_header where
  "scenario_header =
     \<lparr>magic = map of_char ''Scw4.x'' @ replicate 10 0,
      main_v = 1, is_compressed = 0, content_len = 28, comp_len = 0, minor_v = 0,
      cmd_count = 0, str_count = 2, addon_count = 0, cmd_size = 0, str_size = 12,
      addon_size = 0, pad1 = 0, text_count = 2,
      pad2 = replicate 128 0, desc = replicate 256 0\<rparr>"

text \<open>
  The scenario container rebuilt from a document whose first string has grown from
  \<open>AB\<close> to \<open>ABCD\<close>: the document, and the container expected.
\<close>

definition edited_document :: ustr where
  "edited_document =
     lit ''[Header]'' @ [10] @ lit ''STRING_COUNT = 2'' @ [10] @ lit ''TEXT_COUNT = 2'' @ [10]
     @ lit ''FILE_DESCRIPTION = '' @ [10, 10]
     @ lit ''[Index=1]'' @ [10] @ lit ''ABCD'' @ [10, 10]
     @ lit ''[Index=2]'' @ [10] @ lit ''CD'' @ [10, 10]"

definition rebuilt_container :: "byte list" where
  "rebuilt_container =
     scw_bytes [1, 0, 24, 0, 0, 0, 2, 0, 0, 8, 0, 0, 2]
       (le_bytes32 0 @ le_bytes32 5 @ le_bytes32 5 @ le_bytes32 3
        @ [0x41, 0x42, 0x43, 0x44, 0, 0x43, 0x44, 0])"

text \<open>
  A container with one string whose slice is \<open>A\<close>, the byte \<open>0x81\<close> and a NUL.
\<close>

definition undecodable_container :: "byte list" where
  "undecodable_container =
     scw_bytes [1, 0, 11, 0, 0, 0, 1, 0, 0, 3, 0, 0, 1]
       (le_bytes32 0 @ le_bytes32 3 @ [0x41, 0x81, 0])"

definition undecodable_header :: scw_header where
  "undecodable_header =
     \<lparr>magic = map of_char ''Scw4.x'' @ replicate 10 0,
      main_v = 1, is_compressed = 0, content_len = 11, comp_len = 0, minor_v = 0,
      cmd_count = 0, str_count = 1, addon_count = 0, cmd_size = 0, str_size = 3,
      addon_size = 0, pad1 = 0, text_count = 1,
      pad2 = replicate 128 0, desc = replicate 256 0\<rparr>"



text \<open>
  A container whose header announces an addon region of 100 bytes that the file does
  not hold: the content area is the index entry of one string and the string \<open>AB\<close>.
\<close>

definition overflow_container :: "byte list" where
  "overflow_container =
     scw_bytes [1, 0, 11, 0, 0, 0, 1, 0, 0, 3, 100, 0, 1]
       (le_bytes32 0 @ le_bytes32 3 @ [0x41, 0x42, 0])"

definition overflow_header :: scw_header where
  "overflow_header =
     \<lparr>magic = map of_char ''Scw4.x'' @ replicate 10 0,
      main_v = 1, is_compressed = 0, content_len = 11, comp_len = 0, minor_v = 0,
      cmd_count = 0, str_count = 1, addon_count = 0, cmd_size = 0, str_size = 3,
      addon_size = 100, pad1 = 0, text_count = 1,
      pad2 = replicate 128 0, desc = replicate 256 0\<rparr>"

text \<open>
  A container with all four regions: one command entry, two string entries and one addon
  entry, a command region of three bytes, the strings \<open>AB\<close> and \<open>CD\<close>, and an addon region
  of four bytes; and the container expected when it is rebuilt from the edited document.
\<close>

definition full_container :: "byte list" where
  "full_container =
     scw_bytes [1, 0, 45, 0, 0, 1, 2, 1, 3, 6, 4, 0, 2]
       (le_bytes32 0 @ le_bytes32 3 @ le_bytes32 0 @ le_bytes32 3 @ le_bytes32 3 @ le_bytes32 3
        @ le_bytes32 0 @ le_bytes32 4
        @ [0x10, 0x11, 0x12] @ [0x41, 0x42, 0, 0x43, 0x44, 0] @ [0x20, 0x21, 0x22, 0x23])"

definition full_header :: scw_header where
  "full_header =
     \<lparr>magic = map of_char ''Scw4.x'' @ replicate 10 0,
      main_v = 1, is_compressed = 0, content_len = 45, comp_len = 0, minor_v = 0,
      cmd_count = 1, str_count = 2, addon_count = 1, cmd_size = 3, str_size = 6,
      addon_size = 4, pad1 = 0, text_count = 2,
      pad2 = replicate 128 0, desc = replicate 256 0\<rparr>"

definition full_rebuilt :: "byte list" where
  "full_rebuilt =
     scw_bytes [1, 0, 47, 0, 0, 1, 2, 1, 3, 8, 4, 0, 2]
       (le_bytes32 0 @ le_bytes32 3 @ le_bytes32 0 @ le_bytes32 5 @ le_bytes32 5 @ le_bytes32 3
        @ le_bytes32 0 @ le_bytes32 4
        @ [0x10, 0x11, 0x12] @ [0x41, 0x42, 0x43, 0x44, 0, 0x43, 0x44, 0]
        @ [0x20, 0x21, 0x22, 0x23])"




text \<open>
  A container whose header holds a command count of \<open>-1\<close> and two strings: the index is
  one entry long. The second container is what the rebuild from the edited document
  gives.
\<close>

definition aliased_container :: "byte list" where
  "aliased_container =
     scw_bytes [1, 0, 14, 0, 0, - 1, 2, 0, 0, 6, 0, 0, 2]
       (le_bytes32 0 @ le_bytes32 3 @ [0x41, 0x42, 0, 0x43, 0x44, 0])"

definition aliased_header :: scw_header where
  "aliased_header =
     \<lparr>magic = map of_char ''Scw4.x'' @ replicate 10 0,
      main_v = 1, is_compressed = 0, content_len = 14, comp_len = 0, minor_v = 0,
      cmd_count = - 1, str_count = 2, addon_count = 0, cmd_size = 0, str_size = 6,
      addon_size = 0, pad1 = 0, text_count = 2,
      pad2 = replicate 128 0, desc = replicate 256 0\<rparr>"

definition aliased_rebuilt :: "byte list" where
  "aliased_rebuilt =
     scw_bytes [1, 0, 16, 0, 0, - 1, 2, 0, 0, 8, 0, 0, 2]
       (le_bytes32 5 @ le_bytes32 3 @ [0x41, 0x42, 0x43, 0x44, 0, 0x43, 0x44, 0])"

subsection \<open>Concrete documents\<close>

text \<open>Two sections in order, and the same with the second one declared as position 3.\<close>

definition ordered_document :: ustr where
  "ordered_document =
     lit ''[Index=1]'' @ [10] @ lit ''A'' @ [10, 10] @ lit ''[Index=2]'' @ [10] @ lit ''B'' @ [10]"

definition gap_document :: ustr where
  "gap_document =
     lit ''[Index=1]'' @ [10] @ lit ''A'' @ [10, 10] @ lit ''[Index=3]'' @ [10] @ lit ''B'' @ [10]"

text \<open>
  One section whose first line is padded with blanks and which goes on with a line in
  brackets and a further line.
\<close>

definition bracket_document :: ustr where
  "bracket_document =
     lit ''[Index=1]'' @ [10] @ lit ''  A  '' @ [10] @ lit ''[x]'' @ [10] @ lit ''B'' @ [10]"

text \<open>The document of a container with the one string \<open>AB\<close>.\<close>

definition single_document :: ustr where
  "single_document =
     lit ''[Header]'' @ [10] @ lit ''STRING_COUNT = 1'' @ [10] @ lit ''TEXT_COUNT = 1'' @ [10]
     @ lit ''FILE_DESCRIPTION = '' @ [10, 10]
     @ lit ''[Index=1]'' @ [10] @ lit ''AB'' @ [10, 10]"

text \<open>
  A document for the scenario container that declares two strings and holds one section.
\<close>

definition short_document :: ustr where
  "short_document =
     lit ''[Header]'' @ [10] @ lit ''STRING_COUNT = 2'' @ [10] @ lit ''TEXT_COUNT = 2'' @ [10]
     @ lit ''FILE_DESCRIPTION = '' @ [10, 10]
     @ lit ''[Index=1]'' @ [10] @ lit ''AB'' @ [10, 10]"

section \<open>Properties of the decoder\<close>

subsection \<open>Lenient decoding is total\<close>

lemma decode_lenient_total: "m \<noteq> Strict \<Longrightarrow> \<exists>s. decode_text c m bs = Inr s"
proof (induction c m bs rule: decode_text.induct)
  case (1 c m)
  then show ?case by simp
next
  case (2 c m b bs)
  show ?case
  proof (cases "dec_one c (b # bs)")
    case None
    show ?thesis
    proof (cases m)
      case Strict
      with 2(4) show ?thesis by simp
    next
      case Replace
      with None 2 obtain s where "decode_text c m bs = Inr s" by blast
      with None Replace show ?thesis by simp
    next
      case Ignore
      with None 2 obtain s where "decode_text c m bs = Inr s" by blast
      with None Ignore show ?thesis by simp
    qed
  next
    case (Some p)
    obtain cp n where p: "p = (cp, n)" by (cases p)
    with Some 2
    obtain s where "decode_text c m (drop (n - 1) bs) = Inr s" by blast
    with Some p show ?thesis by simp
  qed
qed

lemma decode_replace_total: "\<exists>s. decode_text c Replace bs = Inr s"
  by (rule decode_lenient_total) simp

lemma decode_ignore_total: "\<exists>s. decode_text c Ignore bs = Inr s"
  by (rule decode_lenient_total) simp

lemma extract_loop_no_decode_error:
  "extract_loop c fb idx sss cc rest strs \<noteq> Inl (Raised UnicodeDecodeError)"
proof (induction rest arbitrary: strs)
  case Nil
  then show ?case by simp
next
  case (Cons i rest)
  show ?case
    using Cons.IH
    by (auto simp: Let_def unpack_II_def f_read_def split: sum.splits prod.splits if_splits)
qed

text \<open>
  Claim C10. Slices are decoded with \<open>errors='replace'\<close>, which never raises: for every
  byte slice the decoding returns a string and \<open>decode_slice\<close> is that string, so the
  handler that would give \<open><DECODE_ERROR>\<close> is never entered; and the extraction loop
  never ends in a \<open>UnicodeDecodeError\<close>, whatever the bytes are.
\<close>

theorem decode_slice_never_falls_back:
  "(\<exists>s. decode_text c Replace (rstrip_nul data) = Inr s \<and> decode_slice c data = s)
   \<and> extract_loop c fb idx sss cc rest strs \<noteq> Inl (Raised UnicodeDecodeError)"
proof -
  obtain s where "decode_text c Replace (rstrip_nul data) = Inr s"
    using decode_replace_total by blast
  then have "decode_slice c data = s" by (simp add: decode_slice_def)
  with \<open>decode_text c Replace (rstrip_nul data) = Inr s\<close> extract_loop_no_decode_error
  show ?thesis by blast
qed

subsection \<open>Reading the header and the index\<close>

lemma f_read_ok: "- 1 \<le> n \<Longrightarrow> f_read fb pos n = Inr (read_bytes fb pos n)"
  by (simp add: f_read_def)

lemma le_u32_nonneg: "0 \<le> le_u32 bs"
  unfolding le_u32_def by (induction bs) simp_all

lemma read_i32_ok: "off + 4 \<le> length fb \<Longrightarrow> read_i32 fb off = Inr (s32_at fb off)"
  by (simp add: read_i32_def f_read_def bnd_def raise_def unpack_i32_def read_bytes_def
        s32_at_def)

lemma s32_at_take: "off + 4 \<le> n \<Longrightarrow> s32_at (take n fb) off = s32_at fb off"
  by (simp add: s32_at_def drop_take min_def)

lemma unpack_header_length:
  assumes "unpack_header (read_bytes fb 0 (int FileHeadLen)) = Inr h"
  shows "FileHeadLen \<le> length fb"
  using assms
  by (auto simp: unpack_header_def read_bytes_def FileHeadLen_def Pad2Len_def split: if_splits)

lemma unpack_header_fields:
  assumes "unpack_header (read_bytes fb 0 (int FileHeadLen)) = Inr h"
  shows "cmd_count h = s32_at fb 36" "str_count h = s32_at fb 40" "addon_count h = s32_at fb 44"
    "cmd_size h = s32_at fb 48" "text_count h = s32_at fb 64" "magic h = take 16 fb"
    "content_len h = s32_at fb 24" "str_size h = s32_at fb 52" "addon_size h = s32_at fb 56"
  using assms
  by (auto simp: unpack_header_def read_bytes_def FileHeadLen_def Pad2Len_def s32_at_take
           split: if_splits)

lemma extract_parts_unfold:
  assumes h: "unpack_header (read_bytes fb 0 (int FileHeadLen)) = Inr h"
  shows "extract_parts c fb =
     (case ascii_decode (rstrip_nul (take 16 fb)) of
        Inl e \<Rightarrow> Inl (Raised e)
      | Inr mgc \<Rightarrow>
          if mgc \<noteq> lit ''Scw4.x'' then Inl InvalidMagic
          else if text_count h = 0 then Inl TextCountZero
          else if index_size_of h < - 1 then Inl (Raised ValueError)
          else if int (length (read_bytes fb FileHeadLen (index_size_of h))) \<noteq> index_size_of h
          then Inl IncompleteIndex
          else
            (case extract_loop c fb (read_bytes fb FileHeadLen (index_size_of h))
                    (int FileHeadLen + index_size_of h + cmd_size h) (cmd_count h)
                    (py_range (str_count h)) [] of
               Inl f \<Rightarrow> Inl f
             | Inr strs \<Rightarrow> Inr (str_count h, text_count h, description_of c fb, strs)))"
proof -
  have len: "452 \<le> length fb"
    using unpack_header_length[OF h] by (simp add: FileHeadLen_def)
  obtain d where d: "decode_text c Ignore (takeWhile (\<lambda>b. b \<noteq> 0) (read_bytes fb 196 256)) = Inr d"
    using decode_ignore_total by blast
  have r: "\<And>off. off \<le> 64 \<Longrightarrow> read_i32 fb off = Inr (s32_at fb off)"
    using len by (intro read_i32_ok) simp
  have m: "read_bytes fb 0 16 = take 16 fb" by (simp add: read_bytes_def)
  show ?thesis
    unfolding extract_parts_def
    by (simp add: r m d f_read_def Pad2Len_def bnd_def raise_def Let_def description_of_def
          index_size_of_def unpack_header_fields[OF h]
        split: sum.splits)
qed


lemma py_slice_nat:
  assumes "a \<le> b" "b \<le> length xs"
  shows "py_slice xs (int a) (int b) = take (b - a) (drop a xs)"
  using assms by (simp add: py_slice_def slice_bound_def Let_def)

lemma unpack_II_window:
  assumes "k + 8 \<le> length idx"
  shows "unpack_II (take 8 (drop k idx)) =
           Inr (le_u32 (take 4 (drop k idx)), le_u32 (take 4 (drop (k + 4) idx)))"
proof -
  have "drop 4 (take 8 (drop k idx)) = take 4 (drop (k + 4) idx)"
    by (simp add: drop_take add.commute)
  then show ?thesis using assms by (auto simp: unpack_II_def min_def)
qed

lemma take4_window:
  assumes "a + 4 \<le> n"
  shows "take 4 (drop a (take n (drop p fb))) = take 4 (drop (p + a) fb)"
  using assms by (simp add: drop_take min_def add.commute)

lemma entry_in_file:
  assumes "int (length (read_bytes fb FileHeadLen isz)) = isz" and "k * 8 + 8 \<le> nat isz"
  shows "entry_in (read_bytes fb FileHeadLen isz) k =
           (le_u32 (read_bytes fb (FileHeadLen + k * 8) 4),
            le_u32 (read_bytes fb (FileHeadLen + k * 8 + 4) 4))"
proof -
  have nn: "\<not> isz < 0" using assms(1) by linarith
  have a: "k * 8 + 4 \<le> nat isz" "k * 8 + 4 + 4 \<le> nat isz" using assms(2) by simp_all
  show ?thesis
    using take4_window[OF a(1), of FileHeadLen fb] take4_window[OF a(2), of FileHeadLen fb] nn
    by (simp add: entry_in_def read_bytes_def add.assoc)
qed

lemma unpack_II_nonneg:
  assumes "unpack_II bs = Inr (st, ln)"
  shows "0 \<le> st" "0 \<le> ln"
  using assms le_u32_nonneg by (auto simp: unpack_II_def split: if_splits)

lemma extract_loop_general:
  assumes "extract_loop c fb idx sss cc rest strs = Inr out"
  shows "\<exists>outs. out = strs @ outs \<and> length outs \<le> length rest
          \<and> (\<forall>j < length outs. \<exists>st ln.
                 (cc + rest ! j) * 8 + 8 \<le> int (length idx)
                 \<and> unpack_II (py_slice idx ((cc + rest ! j) * 8) ((cc + rest ! j) * 8 + 8))
                     = Inr (st, ln)
                 \<and> 0 \<le> sss + st
                 \<and> outs ! j = decode_slice c (read_bytes fb (nat (sss + st)) ln))
          \<and> (length outs < length rest
                \<longrightarrow> int (length idx) < (cc + rest ! length outs) * 8 + 8)"
  using assms
proof (induction rest arbitrary: strs)
  case Nil
  then show ?case by simp
next
  case (Cons i rest)
  show ?case
  proof (cases "int (length idx) < (cc + i) * 8 + 8")
    case True
    with Cons.prems have "out = strs" by (simp add: Let_def)
    with True show ?thesis by (intro exI[of _ "[]"]) simp
  next
    case False
    then have fit: "(cc + i) * 8 + 8 \<le> int (length idx)" by simp
    from Cons.prems False obtain st ln where
      up: "unpack_II (py_slice idx ((cc + i) * 8) ((cc + i) * 8 + 8)) = Inr (st, ln)"
      by (auto simp: Let_def split: sum.splits)
    from Cons.prems False up have pos: "0 \<le> sss + st"
      by (auto simp: Let_def split: if_splits)
    from unpack_II_nonneg[OF up] have "0 \<le> ln" by simp
    then have rd: "f_read fb (nat (sss + st)) ln = Inr (read_bytes fb (nat (sss + st)) ln)"
      by (simp add: f_read_def)
    define s0 where "s0 = decode_slice c (read_bytes fb (nat (sss + st)) ln)"
    from Cons.prems False up pos rd
    have rec: "extract_loop c fb idx sss cc rest (strs @ [s0]) = Inr out"
      by (simp add: Let_def s0_def)
    from Cons.IH[OF rec] obtain outs where
      o: "out = (strs @ [s0]) @ outs" and l: "length outs \<le> length rest"
      and e: "\<forall>j < length outs. \<exists>st ln.
                 (cc + rest ! j) * 8 + 8 \<le> int (length idx)
                 \<and> unpack_II (py_slice idx ((cc + rest ! j) * 8) ((cc + rest ! j) * 8 + 8))
                     = Inr (st, ln)
                 \<and> 0 \<le> sss + st
                 \<and> outs ! j = decode_slice c (read_bytes fb (nat (sss + st)) ln)"
      and b: "length outs < length rest
                \<longrightarrow> int (length idx) < (cc + rest ! length outs) * 8 + 8"
      by blast
    have e': "\<forall>j < length (s0 # outs). \<exists>st ln.
                 (cc + (i # rest) ! j) * 8 + 8 \<le> int (length idx)
                 \<and> unpack_II (py_slice idx ((cc + (i # rest) ! j) * 8)
                                ((cc + (i # rest) ! j) * 8 + 8)) = Inr (st, ln)
                 \<and> 0 \<le> sss + st
                 \<and> (s0 # outs) ! j = decode_slice c (read_bytes fb (nat (sss + st)) ln)"
    proof (rule allI, rule impI)
      fix j assume j: "j < length (s0 # outs)"
      show "\<exists>st ln.
                 (cc + (i # rest) ! j) * 8 + 8 \<le> int (length idx)
                 \<and> unpack_II (py_slice idx ((cc + (i # rest) ! j) * 8)
                                ((cc + (i # rest) ! j) * 8 + 8)) = Inr (st, ln)
                 \<and> 0 \<le> sss + st
                 \<and> (s0 # outs) ! j = decode_slice c (read_bytes fb (nat (sss + st)) ln)"
      proof (cases j)
        case 0
        from fit up pos show ?thesis unfolding 0 by (intro exI[of _ st] exI[of _ ln]) (simp add: s0_def)
      next
        case (Suc j')
        with j have "j' < length outs" by simp
        with e show ?thesis unfolding Suc by simp
      qed
    qed
    from o l e' b show ?thesis by (intro exI[of _ "s0 # outs"]) simp
  qed
qed

lemma string_entry_in_index:
  assumes len: "int (length (read_bytes fb FileHeadLen isz)) = isz"
    and cc: "0 \<le> cc"
    and fit: "(cc + int i) * 8 + 8 \<le> isz"
    and up: "unpack_II (py_slice (read_bytes fb FileHeadLen isz) ((cc + int i) * 8)
                         ((cc + int i) * 8 + 8)) = Inr (st, ln)"
  shows "string_entry fb cc i = (st, ln)"
proof -
  let ?idx = "read_bytes fb FileHeadLen isz"
  define k where "k = nat cc + i"
  have ik: "int k = cc + int i" using cc by (simp add: k_def)
  from fit ik have "int (k * 8 + 8) \<le> isz" by simp
  then have b: "k * 8 + 8 \<le> nat isz" by linarith
  from len have li: "length ?idx = nat isz" by linarith
  have k': "k * 8 + 8 \<le> length ?idx" using b li by simp
  have off: "(cc + int i) * 8 = int (k * 8)" using ik by simp
  have off8: "(cc + int i) * 8 + 8 = int (k * 8 + 8)" using ik by simp
  have sl: "py_slice ?idx ((cc + int i) * 8) ((cc + int i) * 8 + 8) = take 8 (drop (k * 8) ?idx)"
    unfolding off off8 using py_slice_nat[of "k * 8" "k * 8 + 8" ?idx] k' by simp
  from up have "entry_in ?idx k = (st, ln)"
    unfolding sl entry_in_def using unpack_II_window[OF k'] by simp
  then show ?thesis
    using entry_in_file[OF len b] by (simp add: string_entry_def Let_def k_def)
qed

lemma rstrip_nul_split:
  "\<exists>k. data = rstrip_nul data @ replicate k 0
       \<and> (rstrip_nul data = [] \<or> last (rstrip_nul data) \<noteq> 0)"
proof -
  let ?z = "takeWhile (\<lambda>b. b = 0) (rev data)"
  let ?r = "dropWhile (\<lambda>b. b = 0) (rev data)"
  have "\<forall>y \<in> set ?z. y = 0" by (auto dest: set_takeWhileD)
  then have z: "replicate (length ?z) 0 = ?z" by (rule replicate_length_same)
  have "rev data = ?z @ ?r" by simp
  then have "data = rev ?r @ rev ?z" by (metis rev_append rev_rev_ident)
  also have "rev ?z = ?z" using z by (metis rev_replicate)
  finally have d: "data = rstrip_nul data @ replicate (length ?z) 0"
    using z by (simp add: rstrip_nul_def)
  have "?r \<noteq> [] \<Longrightarrow> hd ?r \<noteq> 0" using hd_dropWhile[of "\<lambda>b. b = 0" "rev data"] by simp
  then have l: "rstrip_nul data = [] \<or> last (rstrip_nul data) \<noteq> 0"
    by (auto simp: rstrip_nul_def last_rev)
  from d l show ?thesis by blast
qed

lemma decode_slice_body:
  "\<exists>body k. data = body @ replicate k 0 \<and> (body = [] \<or> last body \<noteq> 0)
      \<and> decode_text c Replace body = Inr (decode_slice c data)"
proof -
  obtain s where s: "decode_text c Replace (rstrip_nul data) = Inr s"
    using decode_replace_total by blast
  then have "decode_slice c data = s" by (simp add: decode_slice_def)
  with s rstrip_nul_split[of data] show ?thesis by blast
qed


lemma scenario_value:
  "extract_parts ascii_range scenario_container = Inr (2, 2, [], [lit ''AB'', lit ''CD''])"
  by code_simp

text \<open>
  Claim C8. When the extraction of a file with a full header succeeds, it yields at most
  \<open>str_count\<close> strings, and exactly \<open>str_count\<close> of them when the counts of commands and of
  addons are not negative. For each string \<open>i\<close> it yields, \<open>(start, length)\<close> is unpacked
  from the eight bytes of the index at the offset \<open>(command_count + i) * 8\<close>, which for a
  command count that is not negative are the bytes of the file from
  \<open>FileHeadLen + (command_count + i) * 8\<close> on; the slice of string \<open>i\<close> is the \<open>length\<close>
  bytes of the file at the absolute position
  \<open>FileHeadLen + index_size + command_size + start\<close>; the slice is a body that does not
  end in a NUL byte followed by NUL bytes only, and string \<open>i\<close> is the body decoded
  with the replacement policy. On the scenario container, with entries \<open>(0, 6)\<close> and
  \<open>(6, 6)\<close> over \<open>AB\0\0\0\0CD\0\0\0\0\<close>, the strings are \<open>AB\<close> and \<open>CD\<close>.
\<close>

theorem string_entries_located:
  "(unpack_header (read_bytes fb 0 (int FileHeadLen)) = Inr h
      \<and> extract_parts c fb = Inr (n, t, d, strs)
    \<longrightarrow> length strs \<le> nat (str_count h)
        \<and> (0 \<le> cmd_count h \<and> 0 \<le> addon_count h \<longrightarrow> length strs = nat (str_count h))
        \<and> (\<forall>i < length strs. \<exists>start len.
             unpack_II (py_slice (read_bytes fb FileHeadLen (index_size_of h))
                          ((cmd_count h + int i) * 8) ((cmd_count h + int i) * 8 + 8))
               = Inr (start, len)
             \<and> (0 \<le> cmd_count h \<longrightarrow> string_entry fb (cmd_count h) i = (start, len))
             \<and> 0 \<le> int FileHeadLen + index_size_of h + cmd_size h + start
             \<and> 0 \<le> len
             \<and> (\<exists>body k.
                   take (nat len)
                     (drop (nat (int FileHeadLen + index_size_of h + cmd_size h + start)) fb)
                     = body @ replicate k 0
                   \<and> (body = [] \<or> last body \<noteq> 0)
                   \<and> decode_text c Replace body = Inr (strs ! i))))
   \<and> extract_parts ascii_range scenario_container
       = Inr (2, 2, [], [lit ''AB'', lit ''CD''])"
proof (rule conjI[OF _ scenario_value], rule impI)
  assume a: "unpack_header (read_bytes fb 0 (int FileHeadLen)) = Inr h
      \<and> extract_parts c fb = Inr (n, t, d, strs)"
  then have h: "unpack_header (read_bytes fb 0 (int FileHeadLen)) = Inr h"
    and ex: "extract_parts c fb = Inr (n, t, d, strs)"
    by simp_all
  let ?idx = "read_bytes fb FileHeadLen (index_size_of h)"
  let ?sss = "int FileHeadLen + index_size_of h + cmd_size h"
  from ex have len: "int (length ?idx) = index_size_of h"
    and lp: "extract_loop c fb ?idx ?sss (cmd_count h) (py_range (str_count h)) [] = Inr strs"
    unfolding extract_parts_unfold[OF h]
    by (auto split: sum.splits if_splits)
  from extract_loop_general[OF lp] obtain outs where
    o: "strs = [] @ outs" and l: "length outs \<le> length (py_range (str_count h))"
    and e: "\<forall>j < length outs. \<exists>st ln.
              (cmd_count h + py_range (str_count h) ! j) * 8 + 8 \<le> int (length ?idx)
              \<and> unpack_II (py_slice ?idx ((cmd_count h + py_range (str_count h) ! j) * 8)
                             ((cmd_count h + py_range (str_count h) ! j) * 8 + 8)) = Inr (st, ln)
              \<and> 0 \<le> ?sss + st
              \<and> outs ! j = decode_slice c (read_bytes fb (nat (?sss + st)) ln)"
    and b: "length outs < length (py_range (str_count h))
              \<longrightarrow> int (length ?idx)
                    < (cmd_count h + py_range (str_count h) ! length outs) * 8 + 8"
    by blast
  from o have so: "outs = strs" by simp
  have lr: "length (py_range (str_count h)) = nat (str_count h)" by (simp add: py_range_def)
  have c1: "length strs \<le> nat (str_count h)" using l unfolding so lr .
  have c2: "0 \<le> cmd_count h \<and> 0 \<le> addon_count h \<longrightarrow> length strs = nat (str_count h)"
  proof (rule impI, rule ccontr)
    assume w: "0 \<le> cmd_count h \<and> 0 \<le> addon_count h"
      and ne: "length strs \<noteq> nat (str_count h)"
    from ne c1 have lt: "length strs < nat (str_count h)" by simp
    then have nth: "py_range (str_count h) ! length strs = int (length strs)"
      by (simp add: py_range_def)
    from b lt have "index_size_of h < (cmd_count h + int (length strs)) * 8 + 8"
      unfolding so lr nth len by simp
    moreover from lt have "int (length strs) + 1 \<le> str_count h" by linarith
    moreover from w have "0 \<le> cmd_count h" "0 \<le> addon_count h" by simp_all
    ultimately show False unfolding index_size_of_def by (simp add: algebra_simps)
  qed
  have c3: "\<forall>i < length strs. \<exists>start len.
             unpack_II (py_slice ?idx ((cmd_count h + int i) * 8) ((cmd_count h + int i) * 8 + 8))
               = Inr (start, len)
             \<and> (0 \<le> cmd_count h \<longrightarrow> string_entry fb (cmd_count h) i = (start, len))
             \<and> 0 \<le> ?sss + start
             \<and> 0 \<le> len
             \<and> (\<exists>body k.
                   take (nat len) (drop (nat (?sss + start)) fb) = body @ replicate k 0
                   \<and> (body = [] \<or> last body \<noteq> 0)
                   \<and> decode_text c Replace body = Inr (strs ! i))"
  proof (rule allI, rule impI)
    fix i assume i: "i < length strs"
    with c1 have isc: "i < nat (str_count h)" by simp
    then have nth: "py_range (str_count h) ! i = int i" by (simp add: py_range_def)
    from e i obtain st ln where
      fit: "(cmd_count h + int i) * 8 + 8 \<le> index_size_of h"
      and up: "unpack_II (py_slice ?idx ((cmd_count h + int i) * 8)
                             ((cmd_count h + int i) * 8 + 8)) = Inr (st, ln)"
      and pos: "0 \<le> ?sss + st"
      and v: "strs ! i = decode_slice c (read_bytes fb (nat (?sss + st)) ln)"
      unfolding so len using nth by (metis (no_types, lifting))
    from unpack_II_nonneg[OF up] have ln: "0 \<le> ln" by simp
    have se: "0 \<le> cmd_count h \<longrightarrow> string_entry fb (cmd_count h) i = (st, ln)"
    proof (rule impI)
      assume cc: "0 \<le> cmd_count h"
      show "string_entry fb (cmd_count h) i = (st, ln)"
        by (rule string_entry_in_index[OF len cc fit up])
    qed
    from ln have rb: "read_bytes fb (nat (?sss + st)) ln
                        = take (nat ln) (drop (nat (?sss + st)) fb)"
      by (simp add: read_bytes_def)
    from v rb have v': "decode_slice c (take (nat ln) (drop (nat (?sss + st)) fb)) = strs ! i"
      by simp
    from decode_slice_body[of "take (nat ln) (drop (nat (?sss + st)) fb)" c]
    have bd: "\<exists>body k. take (nat ln) (drop (nat (?sss + st)) fb) = body @ replicate k 0
              \<and> (body = [] \<or> last body \<noteq> 0)
              \<and> decode_text c Replace body = Inr (strs ! i)"
      unfolding v' .
    from up se pos ln bd
    have "unpack_II (py_slice ?idx ((cmd_count h + int i) * 8) ((cmd_count h + int i) * 8 + 8))
               = Inr (st, ln)
             \<and> (0 \<le> cmd_count h \<longrightarrow> string_entry fb (cmd_count h) i = (st, ln))
             \<and> 0 \<le> ?sss + st
             \<and> 0 \<le> ln
             \<and> (\<exists>body k.
                   take (nat ln) (drop (nat (?sss + st)) fb) = body @ replicate k 0
                   \<and> (body = [] \<or> last body \<noteq> 0)
                   \<and> decode_text c Replace body = Inr (strs ! i))"
      by (intro conjI)
    then show "\<exists>start len.
             unpack_II (py_slice ?idx ((cmd_count h + int i) * 8) ((cmd_count h + int i) * 8 + 8))
               = Inr (start, len)
             \<and> (0 \<le> cmd_count h \<longrightarrow> string_entry fb (cmd_count h) i = (start, len))
             \<and> 0 \<le> ?sss + start
             \<and> 0 \<le> len
             \<and> (\<exists>body k.
                   take (nat len) (drop (nat (?sss + start)) fb) = body @ replicate k 0
                   \<and> (body = [] \<or> last body \<noteq> 0)
                   \<and> decode_text c Replace body = Inr (strs ! i))"
      by (intro exI[of _ st] exI[of _ ln])
  qed
  from c1 c2 c3 show "length strs \<le> nat (str_count h)
        \<and> (0 \<le> cmd_count h \<and> 0 \<le> addon_count h \<longrightarrow> length strs = nat (str_count h))
        \<and> (\<forall>i < length strs. \<exists>start len.
             unpack_II (py_slice ?idx ((cmd_count h + int i) * 8) ((cmd_count h + int i) * 8 + 8))
               = Inr (start, len)
             \<and> (0 \<le> cmd_count h \<longrightarrow> string_entry fb (cmd_count h) i = (start, len))
             \<and> 0 \<le> ?sss + start
             \<and> 0 \<le> len
             \<and> (\<exists>body k.
                   take (nat len) (drop (nat (?sss + start)) fb) = body @ replicate k 0
                   \<and> (body = [] \<or> last body \<noteq> 0)
                   \<and> decode_text c Replace body = Inr (strs ! i)))"
    by (intro conjI)
qed

lemma scenario_header_value:
  "unpack_header (read_bytes scenario_container 0 (int FileHeadLen)) = Inr scenario_header"
  by code_simp

lemma undecodable_header_value:
  "unpack_header (read_bytes undecodable_container 0 (int FileHeadLen)) = Inr undecodable_header"
  by code_simp

lemma undecodable_value:
  "extract_parts ascii_range undecodable_container = Inr (1, 1, [], [[0x41, 0xFFFD]])"
  by code_simp

theorem string_entries_located_witness:
  "unpack_header (read_bytes scenario_container 0 (int FileHeadLen)) = Inr scenario_header
   \<and> extract_parts ascii_range scenario_container = Inr (2, 2, [], [lit ''AB'', lit ''CD''])
   \<and> 0 \<le> cmd_count scenario_header \<and> 0 \<le> addon_count scenario_header
   \<and> length [lit ''AB'', lit ''CD''] = nat (str_count scenario_header)
   \<and> string_entry scenario_container (cmd_count scenario_header) 1 = (6, 6)
   \<and> int FileHeadLen + index_size_of scenario_header + cmd_size scenario_header + 6 = 474
   \<and> take 6 (drop 474 scenario_container) = [0x43, 0x44] @ replicate 4 0
   \<and> (\<exists>body k. take 6 (drop 474 scenario_container) = body @ replicate k 0
          \<and> decode_text ascii_range Replace body = Inr (lit ''CD''))
   \<and> unpack_header (read_bytes undecodable_container 0 (int FileHeadLen))
       = Inr undecodable_header
   \<and> extract_parts ascii_range undecodable_container = Inr (1, 1, [], [[0x41, 0xFFFD]])
   \<and> 0 \<le> cmd_count undecodable_header \<and> 0 \<le> addon_count undecodable_header
   \<and> string_entry undecodable_container (cmd_count undecodable_header) 0 = (0, 3)
   \<and> int FileHeadLen + index_size_of undecodable_header + cmd_size undecodable_header + 0 = 460
   \<and> take 3 (drop 460 undecodable_container) = [0x41, 0x81] @ replicate 1 0
   \<and> (\<exists>body k. take 3 (drop 460 undecodable_container) = body @ replicate k 0
          \<and> decode_text ascii_range Replace body = Inr [0x41, 0xFFFD])"
proof -
  have c: "0 \<le> cmd_count scenario_header" "0 \<le> addon_count scenario_header"
    by (simp_all add: scenario_header_def)
  have cu: "0 \<le> cmd_count undecodable_header" "0 \<le> addon_count undecodable_header"
    by (simp_all add: undecodable_header_def)
  have e1: "string_entry scenario_container (cmd_count scenario_header) 1 = (6, 6)"
    by code_simp
  have e0: "string_entry undecodable_container (cmd_count undecodable_header) 0 = (0, 3)"
    by code_simp
  have p1: "int FileHeadLen + index_size_of scenario_header + cmd_size scenario_header + 6 = 474"
    by (simp add: FileHeadLen_def index_size_of_def scenario_header_def)
  have p0: "int FileHeadLen + index_size_of undecodable_header + cmd_size undecodable_header + 0
              = 460"
    by (simp add: FileHeadLen_def index_size_of_def undecodable_header_def)
  have t1: "take 6 (drop 474 scenario_container) = [0x43, 0x44] @ replicate 4 0" by code_simp
  have t0: "take 3 (drop 460 undecodable_container) = [0x41, 0x81] @ replicate 1 0"
    by code_simp
  have n1: "(1::nat) < nat (str_count scenario_header)" by (simp add: scenario_header_def)
  have n0: "(0::nat) < nat (str_count undecodable_header)" by (simp add: undecodable_header_def)
  have m1: "(1::nat) < length [lit ''AB'', lit ''CD'']" by simp
  have m0: "(0::nat) < length [[0x41, 0xFFFD :: int]]" by simp
  note a = string_entries_located[of scenario_container scenario_header ascii_range
         2 2 "[]" "[lit ''AB'', lit ''CD'']", THEN conjunct1, THEN mp,
         OF conjI[OF scenario_header_value scenario_value]]
  note b = string_entries_located[of undecodable_container undecodable_header ascii_range
         1 1 "[]" "[[0x41, 0xFFFD]]", THEN conjunct1, THEN mp,
         OF conjI[OF undecodable_header_value undecodable_value]]
  from a[THEN conjunct2, THEN conjunct1, THEN mp, OF conjI[OF c]]
  have l: "length [lit ''AB'', lit ''CD''] = nat (str_count scenario_header)" .
  from a[THEN conjunct2, THEN conjunct2, rule_format, OF m1]
  obtain st ln where
    se: "0 \<le> cmd_count scenario_header
           \<longrightarrow> string_entry scenario_container (cmd_count scenario_header) 1 = (st, ln)"
    and bd: "\<exists>body k.
        take (nat ln)
          (drop (nat (int FileHeadLen + index_size_of scenario_header + cmd_size scenario_header
                       + st)) scenario_container) = body @ replicate k 0
        \<and> (body = [] \<or> last body \<noteq> 0)
        \<and> decode_text ascii_range Replace body = Inr ([lit ''AB'', lit ''CD''] ! 1)"
    by blast
  from se c(1) e1 have sv: "st = 6" "ln = 6" by simp_all
  from bd
  have g1: "\<exists>body k. take 6 (drop 474 scenario_container) = body @ replicate k 0
          \<and> decode_text ascii_range Replace body = Inr (lit ''CD'')"
    unfolding sv p1 by auto
  from b[THEN conjunct2, THEN conjunct2, rule_format, OF m0]
  obtain st' ln' where
    se': "0 \<le> cmd_count undecodable_header
           \<longrightarrow> string_entry undecodable_container (cmd_count undecodable_header) 0 = (st', ln')"
    and bd': "\<exists>body k.
        take (nat ln')
          (drop (nat (int FileHeadLen + index_size_of undecodable_header
                       + cmd_size undecodable_header + st')) undecodable_container)
          = body @ replicate k 0
        \<and> (body = [] \<or> last body \<noteq> 0)
        \<and> decode_text ascii_range Replace body = Inr ([[0x41, 0xFFFD]] ! 0)"
    by blast
  from se' cu(1) e0 have sv': "st' = 0" "ln' = 3" by simp_all
  from bd'
  have g0: "\<exists>body k. take 3 (drop 460 undecodable_container) = body @ replicate k 0
          \<and> decode_text ascii_range Replace body = Inr [0x41, 0xFFFD]"
    unfolding sv' p0 by auto
  from scenario_header_value scenario_value c l e1 p1 t1 g1
    undecodable_header_value undecodable_value cu e0 p0 t0 g0
  show ?thesis by (intro conjI)
qed




section \<open>Properties of the document parser\<close>

subsection \<open>Stripping\<close>

lemma dropWhile_last_keeps:
  assumes "xs \<noteq> []" "\<not> P (last xs)"
  shows "dropWhile P xs \<noteq> [] \<and> last (dropWhile P xs) = last xs"
  using assms
proof (induction xs)
  case Nil
  then show ?case by simp
next
  case (Cons x xs)
  show ?case
  proof (cases "xs = []")
    case True
    with Cons.prems show ?thesis by simp
  next
    case False
    with Cons show ?thesis by auto
  qed
qed

lemma rstrip_last: "rstrip s \<noteq> [] \<Longrightarrow> \<not> is_space (last (rstrip s))"
proof -
  assume a: "rstrip s \<noteq> []"
  then have ne: "dropWhile is_space (rev s) \<noteq> []" by (simp add: rstrip_def)
  then have "\<not> is_space (hd (dropWhile is_space (rev s)))" by (rule hd_dropWhile)
  with ne show ?thesis by (simp add: rstrip_def last_rev)
qed

lemma strip_ends:
  assumes "strip s \<noteq> []"
  shows "\<not> is_space (hd (strip s))" "\<not> is_space (last (strip s))"
proof -
  from assms have ne: "dropWhile is_space (rstrip s) \<noteq> []" by (simp add: strip_def lstrip_def)
  then show "\<not> is_space (hd (strip s))"
    unfolding strip_def lstrip_def by (rule hd_dropWhile)
  from ne have r: "rstrip s \<noteq> []" by auto
  from dropWhile_last_keeps[of "rstrip s" is_space, OF r rstrip_last[OF r]]
  show "\<not> is_space (last (strip s))"
    using rstrip_last[OF r] by (simp add: strip_def lstrip_def)
qed

lemma strip_fixed:
  assumes "t = [] \<or> (\<not> is_space (hd t) \<and> \<not> is_space (last t))"
  shows "strip t = t"
proof (cases "t = []")
  case True
  then show ?thesis by (simp add: strip_def lstrip_def rstrip_def)
next
  case False
  with assms have h: "\<not> is_space (hd t)" and l: "\<not> is_space (last t)" by auto
  from False l have "dropWhile is_space (rev t) = rev t"
    by (cases "rev t") (auto simp: last_rev hd_rev[symmetric] simp del: rev_is_Nil_conv dest: arg_cong[where f=hd])
  then have "rstrip t = t" by (simp add: rstrip_def)
  moreover from False h have "dropWhile is_space t = t" by (cases t) auto
  ultimately show ?thesis by (simp add: strip_def lstrip_def)
qed

lemma strip_idem: "strip (strip s) = strip s"
  using strip_ends[of s] by (intro strip_fixed) auto

lemma strip_newline_end: "strip (s @ [10]) = strip s"
  by (simp add: strip_def rstrip_def is_space_def)


subsection \<open>One line of the document\<close>

lemma lit_bracket: "lit ''['' = [91]"
  by (simp add: lit_def)

lemma lit_index: "lit ''[Index='' = [91, 73, 110, 100, 101, 120, 61]"
  by (simp add: lit_def)

lemma startswith_bracket: "startswith l (lit ''['') \<longleftrightarrow> (l \<noteq> [] \<and> hd l = 91)"
  by (cases l) (auto simp: startswith_def lit_bracket)

lemma startswith_index_bracket:
  "startswith l (lit ''[Index='') \<Longrightarrow> startswith l (lit ''['')"
  unfolding startswith_bracket by (cases l) (auto simp: startswith_def lit_index)

lemma parse_line_strip: "parse_line st (strip raw) = parse_line st raw"
  by (simp add: parse_line_def strip_idem)

lemma parse_line_blank: "strip raw = [] \<Longrightarrow> parse_line st raw = Inr st"
  by (simp add: parse_line_def)

lemma parse_line_index:
  assumes "index_line raw"
  shows "parse_line st raw =
     (case declared_index raw of
        None \<Rightarrow> Inl (Raised ValueError)
      | Some n \<Rightarrow>
          if n \<noteq> int (length (strings st)) + 1 then Inl OrderingError
          else Inr (st\<lparr>current_section := Some SecIndex, current_index := Some n,
                        strings := strings st @ [[]]\<rparr>))"
proof -
  from assms have a: "strip raw \<noteq> lit ''[Header]''" "startswith (strip raw) (lit ''[Index='')"
    by (simp_all add: index_line_def)
  from a(2) have b: "startswith (strip raw) (lit ''['')" by (rule startswith_index_bracket)
  then have c: "strip raw \<noteq> []" by (simp add: startswith_bracket)
  show ?thesis
    by (simp add: parse_line_def a b c declared_index_def Let_def)
qed

lemma parse_line_unknown:
  "unknown_section_line raw \<Longrightarrow> parse_line st raw = Inr (st\<lparr>current_section := None\<rparr>)"
  by (auto simp: parse_line_def unknown_section_line_def startswith_bracket Let_def)

lemma parse_line_ignored:
  "current_section st = None \<Longrightarrow> \<not> startswith (strip raw) (lit ''['')
     \<Longrightarrow> parse_line st raw = Inr st"
  by (simp add: parse_line_def Let_def)

lemma parse_line_other:
  assumes "\<not> index_line raw"
  shows "\<exists>st'. parse_line st raw = Inr st' \<and> length (strings st') = length (strings st)"
  using assms
  by (auto simp: parse_line_def index_line_def Let_def
           split: option.splits section_kind.splits)

lemma parse_loop_append:
  "parse_loop st (a @ b) =
     (case parse_loop st a of Inl f \<Rightarrow> Inl f | Inr st' \<Rightarrow> parse_loop st' b)"
  by (induction a arbitrary: st) (auto split: sum.splits)

subsection \<open>The order of the index headers\<close>

lemma parse_line_length:
  "parse_line st raw = Inr st' \<Longrightarrow> length (strings st) \<le> length (strings st')"
proof (cases "index_line raw")
  case True
  assume "parse_line st raw = Inr st'"
  then show ?thesis
    unfolding parse_line_index[OF True] by (auto split: option.splits if_splits)
next
  case False
  assume "parse_line st raw = Inr st'"
  with parse_line_other[OF False, of st] show ?thesis by auto
qed

lemma parse_loop_length:
  "parse_loop st ls = Inr st' \<Longrightarrow> length (strings st) \<le> length (strings st')"
proof (induction ls arbitrary: st)
  case Nil
  then show ?case by simp
next
  case (Cons l ls)
  from Cons.prems obtain st1 where 1: "parse_line st l = Inr st1"
    and 2: "parse_loop st1 ls = Inr st'"
    by (auto split: sum.splits)
  from parse_line_length[OF 1] Cons.IH[OF 2] show ?case by simp
qed

lemma parse_loop_declared:
  "parse_loop st ls = Inr st' \<Longrightarrow>
     declared_indices ls = map int [Suc (length (strings st))..<Suc (length (strings st'))]"
proof (induction ls arbitrary: st)
  case Nil
  then show ?case by (simp add: declared_indices_def map_filter_simps)
next
  case (Cons l ls)
  from Cons.prems obtain st1 where 1: "parse_line st l = Inr st1"
    and 2: "parse_loop st1 ls = Inr st'"
    by (auto split: sum.splits)
  note ih = Cons.IH[OF 2]
  show ?case
  proof (cases "index_line l")
    case True
    from 1 obtain n where n: "declared_index l = Some n" "n = int (length (strings st)) + 1"
      and s1: "strings st1 = strings st @ [[]]"
      unfolding parse_line_index[OF True] by (auto split: option.splits if_splits)
    from parse_loop_length[OF 2] s1 have le: "Suc (length (strings st)) \<le> length (strings st')"
      by simp
    have "declared_indices (l # ls) = n # declared_indices ls"
      using True n(1) by (simp add: declared_indices_def map_filter_simps)
    also have "\<dots> = int (Suc (length (strings st)))
                      # map int [Suc (Suc (length (strings st)))..<Suc (length (strings st'))]"
      using ih n(2) s1 by simp
    also have "\<dots> = map int [Suc (length (strings st))..<Suc (length (strings st'))]"
      using le by (simp add: upt_conv_Cons)
    finally show ?thesis .
  next
    case False
    from parse_line_other[OF False, of st] 1
    have "length (strings st1) = length (strings st)" by auto
    with ih False show ?thesis by (simp add: declared_indices_def map_filter_simps)
  qed
qed

text \<open>
  Claim C6. If the lines before an \<open>[Index=N]\<close> header parse to a state with \<open>k\<close>
  strings and \<open>N \<noteq> k + 1\<close>, then parsing the whole document gives the ordering
  failure, whatever follows: no header and no strings are returned. Conversely, when a
  document parses, the positions its index headers declare are exactly \<open>1, 2, ..., n\<close>
  for the \<open>n\<close> strings returned: increasing from 1, without gap or repetition.
\<close>

theorem index_positions_in_order:
  "(file_lines txt = pre @ l # post \<and> parse_loop init_pstate pre = Inr st
      \<and> index_line l \<and> declared_index l = Some n \<and> n \<noteq> int (length (strings st)) + 1
    \<longrightarrow> parse_txt txt = Inl OrderingError)
   \<and> (parse_txt txt = Inr (hdr, strs)
    \<longrightarrow> declared_indices (file_lines txt) = map int [1..<Suc (length strs)])"
proof (intro conjI impI)
  assume a: "file_lines txt = pre @ l # post \<and> parse_loop init_pstate pre = Inr st
      \<and> index_line l \<and> declared_index l = Some n \<and> n \<noteq> int (length (strings st)) + 1"
  then have "parse_line st l = Inl OrderingError"
    using parse_line_index[of l st] by simp
  with a show "parse_txt txt = Inl OrderingError"
    by (simp add: parse_txt_def parse_loop_append)
next
  assume "parse_txt txt = Inr (hdr, strs)"
  then obtain st' where 1: "parse_loop init_pstate (file_lines txt) = Inr st'"
    and 2: "strings st' = strs"
    by (auto simp: parse_txt_def split: sum.splits)
  from parse_loop_declared[OF 1] 2
  show "declared_indices (file_lines txt) = map int [1..<Suc (length strs)]"
    by (simp add: init_pstate_def)
qed

theorem index_positions_in_order_witness:
  "file_lines gap_document
     = [lit ''[Index=1]'' @ [10], lit ''A'' @ [10], [10]] @ (lit ''[Index=3]'' @ [10]) # [lit ''B'' @ [10]]
   \<and> parse_loop init_pstate [lit ''[Index=1]'' @ [10], lit ''A'' @ [10], [10]]
       = Inr \<lparr>strings = [lit ''A''], header = [], current_index = Some 1,
              current_section = Some SecIndex\<rparr>
   \<and> index_line (lit ''[Index=3]'' @ [10])
   \<and> declared_index (lit ''[Index=3]'' @ [10]) = Some 3
   \<and> (3::int) \<noteq> int (length (strings \<lparr>strings = [lit ''A''], header = [], current_index = Some 1,
              current_section = Some SecIndex\<rparr>)) + 1
   \<and> parse_txt gap_document = Inl OrderingError
   \<and> parse_txt ordered_document = Inr ([], [lit ''A'', lit ''B''])
   \<and> declared_indices (file_lines ordered_document) = map int [1..<Suc (length [lit ''A'', lit ''B''])]"
proof -
  let ?st = "\<lparr>strings = [lit ''A''], header = [], current_index = Some 1,
              current_section = Some SecIndex\<rparr>"
  have 1: "file_lines gap_document
     = [lit ''[Index=1]'' @ [10], lit ''A'' @ [10], [10]] @ (lit ''[Index=3]'' @ [10]) # [lit ''B'' @ [10]]"
    by code_simp
  have 2: "parse_loop init_pstate [lit ''[Index=1]'' @ [10], lit ''A'' @ [10], [10]] = Inr ?st"
    by code_simp
  have 3: "index_line (lit ''[Index=3]'' @ [10])" by code_simp
  have 4: "declared_index (lit ''[Index=3]'' @ [10]) = Some 3" by code_simp
  have 5: "(3::int) \<noteq> int (length (strings ?st)) + 1" by simp
  have 6: "parse_txt ordered_document = Inr ([], [lit ''A'', lit ''B''])" by code_simp
  have 7: "parse_txt gap_document = Inl OrderingError"
    by (rule index_positions_in_order[THEN conjunct1, THEN mp]) (rule conjI[OF 1 conjI[OF 2 conjI[OF 3 conjI[OF 4 5]]]])
  have 8: "declared_indices (file_lines ordered_document)
             = map int [1..<Suc (length [lit ''A'', lit ''B''])]"
    by (rule index_positions_in_order[THEN conjunct2, THEN mp]) (rule 6)
  show ?thesis by (intro conjI 1 2 3 4 5 6 7 8)
qed

subsection \<open>What the parser keeps of a line\<close>

lemma parse_loop_normalise:
  "parse_loop st ls = parse_loop st (filter (\<lambda>l. l \<noteq> []) (map strip ls))"
proof (induction ls arbitrary: st)
  case Nil
  then show ?case by simp
next
  case (Cons l ls)
  show ?case
  proof (cases "strip l = []")
    case True
    then show ?thesis using Cons.IH by (simp add: parse_line_blank)
  next
    case False
    then show ?thesis using Cons.IH by (simp add: parse_line_strip split: sum.splits)
  qed
qed

lemma parse_loop_ignored:
  assumes "current_section st = None"
    and "\<forall>j \<in> set junk. \<not> startswith (strip j) (lit ''['')"
  shows "parse_loop st (junk @ post) = parse_loop st post"
  using assms by (induction junk) (simp_all add: parse_line_ignored)

lemma parse_loop_unknown_section:
  assumes "unknown_section_line l"
    and "\<forall>j \<in> set junk. \<not> startswith (strip j) (lit ''['')"
  shows "parse_loop st (l # junk @ post) = parse_loop st (l # post)"
  using parse_loop_ignored[OF _ assms(2), of "st\<lparr>current_section := None\<rparr>" post]
  by (simp add: parse_line_unknown[OF assms(1)])

lemma split_from_append:
  "split_from cur (a @ 10 # b) = split_from cur a @ split_from [] b"
  by (induction a arbitrary: cur) auto

lemma split_from_single: "10 \<notin> set l \<Longrightarrow> split_from cur l = [cur @ l]"
  by (induction l arbitrary: cur) auto

lemma kept_string_extend:
  assumes "kept_line l" "10 \<notin> set l" "kept_string old"
  shows "kept_string (if old \<noteq> [] then old @ [10] @ l else l)"
  using assms
  by (auto simp: kept_string_def split_nl_def split_from_append split_from_single)

lemma set_strip: "set (strip s) \<subseteq> set s"
proof -
  have "set (rstrip s) \<subseteq> set s"
    using set_dropWhileD[of _ is_space "rev s"] by (auto simp: rstrip_def)
  moreover have "set (lstrip (rstrip s)) \<subseteq> set (rstrip s)"
    using set_dropWhileD[of _ is_space "rstrip s"] by (auto simp: lstrip_def)
  ultimately show ?thesis by (auto simp: strip_def)
qed

lemma parse_line_kept:
  assumes "parse_line st raw = Inr st'" "10 \<notin> set (strip raw)"
    and "list_all kept_string (strings st)"
  shows "list_all kept_string (strings st')"
proof (cases "index_line raw")
  case True
  with assms(1,3) show ?thesis
    unfolding parse_line_index[OF True]
    by (auto simp: kept_string_def split: option.splits if_splits)
next
  case False
  let ?line = "strip raw"
  show ?thesis
  proof (cases "?line = [] \<or> startswith ?line (lit ''['') \<or> current_section st \<noteq> Some SecIndex")
    case True
    with assms(1,3) False show ?thesis
      by (auto simp: parse_line_def Let_def index_line_def split: if_splits option.splits section_kind.splits)
  next
    case c: False
    then have k: "kept_line ?line" by (simp add: kept_line_def strip_idem)
    show ?thesis
    proof (cases "current_index st")
      case None
      with assms(1,3) c show ?thesis by (simp add: parse_line_def Let_def)
    next
      case (Some ci)
      show ?thesis
      proof (cases "1 \<le> ci \<and> ci \<le> int (length (strings st))")
        case False
        with assms(1,3) c Some show ?thesis
          by (auto simp: parse_line_def Let_def split: if_splits)
      next
        case True
        define k where "k = nat (ci - 1)"
        from True have kl: "k < length (strings st)" unfolding k_def by linarith
        from assms(3) kl have old: "kept_string (strings st ! k)"
          by (simp add: list_all_length)
        from assms(1) c Some True
        have st': "strings st' = (strings st)[k := (if strings st ! k \<noteq> []
                        then strings st ! k @ [10] @ ?line else ?line)]"
          by (auto simp: parse_line_def Let_def k_def)
        from kept_string_extend[OF k assms(2) old] assms(3) kl
        show ?thesis unfolding st'
          by (auto simp: list_all_length nth_list_update)
      qed
    qed
  qed
qed

lemma lines_from_newline:
  assumes "l \<in> set (lines_from cur cs)" "10 \<notin> set cur"
  shows "10 \<notin> set (butlast l)"
  using assms
proof (induction cs arbitrary: cur)
  case Nil
  then show ?case by (auto split: if_splits dest: in_set_butlastD)
next
  case (Cons ch cs)
  show ?case
  proof (cases "ch = 10")
    case True
    with Cons.prems have "l = cur @ [10] \<or> l \<in> set (lines_from [] cs)" by simp
    then show ?thesis
    proof
      assume "l = cur @ [10]"
      with Cons.prems(2) show ?thesis by simp
    next
      assume "l \<in> set (lines_from [] cs)"
      from Cons.IH[OF this] show ?thesis by simp
    qed
  next
    case False
    with Cons.prems have "l \<in> set (lines_from (cur @ [ch]) cs)" by simp
    from Cons.IH[OF this] False Cons.prems(2) show ?thesis by simp
  qed
qed

lemma strip_no_newline:
  assumes "10 \<notin> set (butlast l)"
  shows "10 \<notin> set (strip l)"
proof (cases "l = [] \<or> last l \<noteq> 10")
  case True
  then have "10 \<notin> set l"
    using assms by (cases l rule: rev_cases) auto
  with set_strip[of l] show ?thesis by auto
next
  case False
  then obtain b where l: "l = b @ [10]" by (cases l rule: rev_cases) auto
  with assms have "10 \<notin> set b" by simp
  with set_strip[of b] show ?thesis by (auto simp: l strip_newline_end)
qed

lemma parse_loop_kept:
  assumes "parse_loop st ls = Inr st'" "\<forall>l \<in> set ls. 10 \<notin> set (strip l)"
    and "list_all kept_string (strings st)"
  shows "list_all kept_string (strings st')"
  using assms
proof (induction ls arbitrary: st)
  case Nil
  then show ?case by simp
next
  case (Cons l ls)
  from Cons.prems(1) obtain st1 where 1: "parse_line st l = Inr st1"
    and 2: "parse_loop st1 ls = Inr st'"
    by (auto split: sum.splits)
  from parse_line_kept[OF 1 _ Cons.prems(3)] Cons.prems(2)
  have "list_all kept_string (strings st1)" by simp
  from Cons.IH[OF 2 _ this] Cons.prems(2) show ?case by simp
qed

lemma parse_txt_kept:
  assumes "parse_txt txt = Inr (hdr, strs)"
  shows "list_all kept_string strs"
proof -
  from assms obtain st' where 1: "parse_loop init_pstate (file_lines txt) = Inr st'"
    and 2: "strings st' = strs"
    by (auto simp: parse_txt_def split: sum.splits)
  have "\<forall>l \<in> set (file_lines txt). 10 \<notin> set (strip l)"
    using lines_from_newline[of _ "[]" "universal_newlines txt"] strip_no_newline
    by (auto simp: file_lines_def)
  from parse_loop_kept[OF 1 this] 2 show ?thesis by (simp add: init_pstate_def)
qed

text \<open>
  Claim C9. Parsing a list of lines is the same as parsing the lines stripped of
  leading and trailing whitespace with the blank ones left out. A line that opens with
  a bracket and is neither \<open>[Header]\<close> nor an \<open>[Index=\<close> header closes the current
  section: the lines after it that do not open with a bracket are dropped. Hence every
  string of a parsed document is empty or made of lines that are not empty, carry no
  whitespace at either end and do not open with a bracket; a string line with
  surrounding whitespace or a leading bracket does not come back as it was.
\<close>

theorem parser_normalises_lines:
  "parse_loop st ls = parse_loop st (filter (\<lambda>l. l \<noteq> []) (map strip ls))
   \<and> (unknown_section_line l \<and> (\<forall>j \<in> set junk. \<not> startswith (strip j) (lit ''[''))
        \<longrightarrow> parse_loop st (l # junk @ post) = parse_loop st (l # post))
   \<and> (parse_txt txt = Inr (hdr, strs) \<longrightarrow> list_all kept_string strs)"
  using parse_loop_normalise parse_loop_unknown_section parse_txt_kept by blast

theorem parser_normalises_lines_witness:
  "unknown_section_line (lit ''[x]'' @ [10])
   \<and> \<not> startswith (strip (lit ''B'' @ [10])) (lit ''['')
   \<and> parse_loop init_pstate ((lit ''[x]'' @ [10]) # [lit ''B'' @ [10]] @ [lit ''[Header]''])
       = parse_loop init_pstate ((lit ''[x]'' @ [10]) # [lit ''[Header]''])
   \<and> parse_txt bracket_document = Inr ([], [lit ''A''])
   \<and> list_all kept_string [lit ''A'']"
proof -
  have 1: "unknown_section_line (lit ''[x]'' @ [10])" by code_simp
  have 2: "\<not> startswith (strip (lit ''B'' @ [10])) (lit ''['')" by code_simp
  from 2 have j2: "\<forall>j \<in> set [lit ''B'' @ [10]]. \<not> startswith (strip j) (lit ''['')" by simp
  have 3: "parse_txt bracket_document = Inr ([], [lit ''A''])" by code_simp
  note t = parser_normalises_lines[of init_pstate "[]" "lit ''[x]'' @ [10]" "[lit ''B'' @ [10]]"
      "[lit ''[Header]'']" bracket_document "[]" "[lit ''A'']"]
  have 4: "parse_loop init_pstate ((lit ''[x]'' @ [10]) # [lit ''B'' @ [10]] @ [lit ''[Header]''])
       = parse_loop init_pstate ((lit ''[x]'' @ [10]) # [lit ''[Header]''])"
    by (rule t[THEN conjunct2, THEN conjunct1, THEN mp]) (rule conjI[OF 1 j2])
  have 5: "list_all kept_string [lit ''A'']"
    by (rule t[THEN conjunct2, THEN conjunct2, THEN mp]) (rule 3)
  show ?thesis by (intro conjI 1 2 3 4 5)
qed

section \<open>Properties of the rebuild\<close>

subsection \<open>Packing and unpacking 32-bit numbers\<close>

lemma byte_of_sum: "(word_of_int (uint b + 256 * k) :: byte) = b"
proof -
  have "(word_of_int (uint b + 256 * k) :: byte) = word_of_int (uint b)"
    unfolding word_of_int_eq_iff by (simp add: take_bit_eq_mod)
  then show ?thesis by (simp only: word_of_int_uint)
qed

lemma div_of_sum: "(uint (b :: byte) + 256 * k) div 256 = k"
  using uint_bounded[of b] uint_nonnegative[of b] by simp

lemma le_u32_four:
  "le_u32 [b0, b1, b2, b3] = uint b0 + 256 * (uint b1 + 256 * (uint b2 + 256 * uint b3))"
  by (simp add: le_u32_def)

lemma le_bytes32_le_u32:
  assumes "length bs = 4"
  shows "le_bytes32 (le_u32 bs) = bs"
proof -
  from assms obtain b0 b1 b2 b3 where bs: "bs = [b0, b1, b2, b3]"
    by (cases bs; cases "tl bs"; cases "tl (tl bs)"; cases "tl (tl (tl bs))") auto
  let ?k1 = "uint b1 + 256 * (uint b2 + 256 * uint b3)"
  let ?k2 = "uint b2 + 256 * uint b3"
  have d1: "le_u32 bs div 256 = ?k1" unfolding bs le_u32_four by (rule div_of_sum)
  have d2: "le_u32 bs div 65536 = ?k2"
  proof -
    have "le_u32 bs div 65536 = (le_u32 bs div 256) div 256"
      by (simp add: div_mult2_eq[symmetric])
    also have "\<dots> = ?k2" unfolding d1 by (rule div_of_sum)
    finally show ?thesis .
  qed
  have d3: "le_u32 bs div 16777216 = uint b3"
  proof -
    have "le_u32 bs div 16777216 = (le_u32 bs div 65536) div 256"
      by (simp add: div_mult2_eq[symmetric])
    also have "\<dots> = uint b3" unfolding d2 using div_of_sum[of b2 "uint b3"] by simp
    finally show ?thesis .
  qed
  have w0: "(word_of_int (le_u32 bs) :: byte) = b0"
    unfolding bs le_u32_four by (rule byte_of_sum)
  have w1: "(word_of_int ?k1 :: byte) = b1" by (rule byte_of_sum)
  have w2: "(word_of_int ?k2 :: byte) = b2" by (rule byte_of_sum)
  show ?thesis
    unfolding le_bytes32_def d1 d2 d3 w0 w1 w2 by (simp add: bs)
qed

lemma le_u32_range:
  assumes "length bs = 4"
  shows "0 \<le> le_u32 bs" "le_u32 bs < 2 ^ 32"
proof -
  from assms obtain b0 b1 b2 b3 where bs: "bs = [b0, b1, b2, b3]"
    by (cases bs; cases "tl bs"; cases "tl (tl bs)"; cases "tl (tl (tl bs))") auto
  show "0 \<le> le_u32 bs" "le_u32 bs < 2 ^ 32"
    unfolding bs le_u32_four
    using uint_bounded[of b0] uint_bounded[of b1] uint_bounded[of b2] uint_bounded[of b3]
      uint_nonnegative[of b0] uint_nonnegative[of b1] uint_nonnegative[of b2]
      uint_nonnegative[of b3]
    by simp_all
qed

lemma le_u32_le_bytes32:
  assumes "0 \<le> v" "v < 2 ^ 32"
  shows "le_u32 (le_bytes32 v) = v"
proof -
  define x1 where "x1 = v div 256"
  define x2 where "x2 = x1 div 256"
  define x3 where "x3 = x2 div 256"
  have e2: "v div 65536 = x2" unfolding x2_def x1_def by (simp add: div_mult2_eq[symmetric])
  have e3: "v div 16777216 = x3"
    unfolding x3_def x2_def x1_def by (simp add: div_mult2_eq[symmetric])
  have "x3 < 256" using assms unfolding e3[symmetric] by simp
  moreover have "0 \<le> x3" using assms unfolding e3[symmetric] by simp
  ultimately have m3: "x3 mod 256 = x3" by simp
  have r2: "x2 mod 256 + 256 * x3 = x2" unfolding x3_def by simp
  have r1: "x1 mod 256 + 256 * x2 = x1" unfolding x2_def by simp
  have r0: "v mod 256 + 256 * x1 = v" unfolding x1_def by simp
  have "le_u32 (le_bytes32 v) =
          v mod 256 + 256 * (x1 mod 256 + 256 * (x2 mod 256 + 256 * (x3 mod 256)))"
    by (simp add: le_bytes32_def le_u32_four uint_word_of_int e2 e3 x1_def[symmetric])
  also have "\<dots> = v" by (simp only: m3 r2 r1 r0)
  finally show ?thesis .
qed

lemma length_le_bytes32: "length (le_bytes32 v) = 4"
  by (simp add: le_bytes32_def)

lemma s32_mod:
  assumes "length (take 4 (drop off bs)) = 4"
  shows "s32_at bs off mod 2 ^ 32 = le_u32 (take 4 (drop off bs))"
  using le_u32_range[OF assms] by (auto simp: s32_at_def Let_def)

lemma s32_in_range:
  assumes "length (take 4 (drop off bs)) = 4"
  shows "in_i32 (s32_at bs off)"
  using le_u32_range[OF assms] by (auto simp: s32_at_def Let_def in_i32_def)

lemma repack_field:
  assumes "off + 4 \<le> length bs"
  shows "le_bytes32 (s32_at bs off mod 2 ^ 32) = take 4 (drop off bs)"
proof -
  have l: "length (take 4 (drop off bs)) = 4" using assms by simp
  show ?thesis unfolding s32_mod[OF l] by (rule le_bytes32_le_u32[OF l])
qed

subsection \<open>The index loop\<close>

lemma cumulative_length_Suc:
  "i < length encs \<Longrightarrow>
     cumulative_length encs (Suc i) = cumulative_length encs i + int (length (encs ! i))"
  by (simp add: cumulative_length_def take_Suc_conv_app_nth)

lemma buf_offset_nat:
  "buf_offset n (int p) = (if n < p + 8 then Inl StructError else Inr p)"
  by (auto simp: buf_offset_def Let_def)

lemma buf_offset_entry:
  "buf_offset n (int s + int a * 8)
     = (if n < s + a * 8 + 8 then Inl StructError else Inr (s + a * 8))"
  using buf_offset_nat[of n "s + a * 8"] by simp

lemma py_index_nat:
  "py_index xs (int i) = (if i < length xs then Inr (xs ! i) else Inl IndexError)"
  by (auto simp: py_index_def)

lemma patch_index_step:
  assumes "patch_index nsl (int s) (int a # rest) (buf, off) = Inr r"
  shows "s + a * 8 + 8 \<le> length buf \<and> a < length nsl \<and> 0 \<le> off \<and> off < 2 ^ 32
       \<and> int (length (nsl ! a)) < 2 ^ 32
       \<and> patch_index nsl (int s) rest
            (take (s + a * 8) buf @ le_bytes32 off @ le_bytes32 (int (length (nsl ! a)))
               @ drop (s + a * 8 + 8) buf,
             off + int (length (nsl ! a))) = Inr r"
proof -
  from assms show ?thesis
    unfolding patch_index.simps Let_def fst_conv snd_conv
    by (auto simp: unpack_from_II_def pack_into_II_def buf_offset_entry py_index_nat pack_u32_def
             split: sum.splits if_splits)
qed

lemma splice_facts:
  assumes "length A = p" "length w = 8"
  shows "drop (p + 8 + d) (A @ w @ C) = drop d C"
    and "take p (A @ w @ C) = A"
    and "take 8 (drop p (A @ w @ C)) = w"
    and "take (p + 8) (A @ w @ C) = A @ w"
    and "length (A @ w @ C) = p + 8 + length C"
  using assms by simp_all

lemma patched_empty:
  assumes "b \<le> a"
  shows "patched nsl s a b buf buf (cumulative_length nsl a)"
proof -
  from assms have mx: "max a b = a" by simp
  have "\<forall>i. a \<le> i \<and> i < b \<longrightarrow>
           take 8 (drop (s + i * 8) buf)
             = le_bytes32 (cumulative_length nsl i) @ le_bytes32 (int (length (nsl ! i)))
           \<and> 0 \<le> cumulative_length nsl i \<and> cumulative_length nsl i < 2 ^ 32
           \<and> int (length (nsl ! i)) < 2 ^ 32"
    using assms by (intro allI impI) linarith
  moreover have "a < b \<longrightarrow> b \<le> length nsl \<and> s + b * 8 \<le> length buf"
    using assms by simp
  ultimately show ?thesis unfolding patched_def mx by simp
qed

lemma patched_step:
  assumes ab: "a < b"
    and fits: "s + a * 8 + 8 \<le> length buf" and al: "a < length nsl"
    and o: "0 \<le> cumulative_length nsl a" "cumulative_length nsl a < 2 ^ 32"
    and ll: "int (length (nsl ! a)) < 2 ^ 32"
    and ih: "patched nsl s (Suc a) b
               (take (s + a * 8) buf
                  @ (le_bytes32 (cumulative_length nsl a) @ le_bytes32 (int (length (nsl ! a))))
                  @ drop (s + a * 8 + 8) buf) buf' off'"
  shows "patched nsl s a b buf buf' off'"
proof -
  define p where "p = s + a * 8"
  define w where "w = le_bytes32 (cumulative_length nsl a) @ le_bytes32 (int (length (nsl ! a)))"
  define A where "A = take p buf"
  define C where "C = drop (p + 8) buf"
  define buf1 where "buf1 = A @ w @ C"
  have lA: "length A = p" using fits by (simp add: A_def p_def)
  have lw: "length w = 8" by (simp add: w_def length_le_bytes32)
  have lC: "length C = length buf - (p + 8)" by (simp add: C_def)
  note sp = splice_facts[OF lA lw]
  have l1: "length buf1 = length buf" unfolding buf1_def sp(5) lC using fits by (simp add: p_def)
  have sa: "s + Suc a * 8 = p + 8" by (simp add: p_def)
  have mx: "max (Suc a) b = max a b" using ab by simp
  from ih have ih': "patched nsl s (Suc a) b buf1 buf' off'"
    by (simp only: buf1_def A_def w_def C_def p_def)
  from ih' have u: "length buf' = length buf1
     \<and> off' = cumulative_length nsl (max a b)
     \<and> (Suc a < b \<longrightarrow> b \<le> length nsl \<and> s + b * 8 \<le> length buf1)
     \<and> take (p + 8) buf' = take (p + 8) buf1
     \<and> drop (s + (max a b) * 8) buf' = drop (s + (max a b) * 8) buf1
     \<and> (\<forall>i. Suc a \<le> i \<and> i < b \<longrightarrow>
           take 8 (drop (s + i * 8) buf')
             = le_bytes32 (cumulative_length nsl i) @ le_bytes32 (int (length (nsl ! i)))
           \<and> 0 \<le> cumulative_length nsl i \<and> cumulative_length nsl i < 2 ^ 32
           \<and> int (length (nsl ! i)) < 2 ^ 32)"
    unfolding patched_def mx sa .
  note i1 = u[THEN conjunct1]
  note i2 = u[THEN conjunct2, THEN conjunct1]
  note i3 = u[THEN conjunct2, THEN conjunct2, THEN conjunct1]
  note i4 = u[THEN conjunct2, THEN conjunct2, THEN conjunct2, THEN conjunct1]
  note i5 = u[THEN conjunct2, THEN conjunct2, THEN conjunct2, THEN conjunct2, THEN conjunct1]
  note i6 = u[THEN conjunct2, THEN conjunct2, THEN conjunct2, THEN conjunct2, THEN conjunct2]
  have c1: "length buf' = length buf" using i1 l1 by simp
  have c3: "a < b \<longrightarrow> b \<le> length nsl \<and> s + b * 8 \<le> length buf"
  proof (cases "Suc a < b")
    case True
    with i3 l1 show ?thesis by simp
  next
    case False
    with ab have "b = Suc a" by simp
    with al fits show ?thesis by simp
  qed
  have "take p buf' = take p (take (p + 8) buf')" by (simp add: min_def)
  also have "\<dots> = take p (take (p + 8) buf1)" by (simp only: i4)
  also have "\<dots> = take p buf1" by (simp add: min_def)
  also have "\<dots> = A" unfolding buf1_def by (rule sp(2))
  finally have c4: "take (s + a * 8) buf' = take (s + a * 8) buf" by (simp add: A_def p_def)
  from ab obtain e where e: "b = Suc a + e" using less_iff_Suc_add[of a b] by auto
  have "max a b = b" using ab by simp
  then have "s + (max a b) * 8 = p + 8 + e * 8" unfolding e p_def by simp
  then obtain d where d: "s + (max a b) * 8 = p + 8 + d" by blast
  have "drop (p + 8 + d) buf1 = drop d C" unfolding buf1_def by (rule sp(1))
  also have "\<dots> = drop (p + 8 + d) buf" by (simp add: C_def add.commute)
  finally have c5: "drop (s + (max a b) * 8) buf' = drop (s + (max a b) * 8) buf"
    using i5 unfolding d by simp
  have "take 8 (drop p buf') = drop p (take (p + 8) buf')" by (simp add: drop_take)
  also have "\<dots> = drop p (take (p + 8) buf1)" by (simp only: i4)
  also have "\<dots> = take 8 (drop p buf1)" by (simp add: drop_take)
  also have "\<dots> = w" unfolding buf1_def by (rule sp(3))
  finally have ea: "take 8 (drop (s + a * 8) buf')
       = le_bytes32 (cumulative_length nsl a) @ le_bytes32 (int (length (nsl ! a)))"
    by (simp add: p_def w_def)
  have c6: "\<forall>i. a \<le> i \<and> i < b \<longrightarrow>
           take 8 (drop (s + i * 8) buf')
             = le_bytes32 (cumulative_length nsl i) @ le_bytes32 (int (length (nsl ! i)))
           \<and> 0 \<le> cumulative_length nsl i \<and> cumulative_length nsl i < 2 ^ 32
           \<and> int (length (nsl ! i)) < 2 ^ 32"
  proof (intro allI impI)
    fix i assume i: "a \<le> i \<and> i < b"
    show "take 8 (drop (s + i * 8) buf')
             = le_bytes32 (cumulative_length nsl i) @ le_bytes32 (int (length (nsl ! i)))
           \<and> 0 \<le> cumulative_length nsl i \<and> cumulative_length nsl i < 2 ^ 32
           \<and> int (length (nsl ! i)) < 2 ^ 32"
    proof (cases "i = a")
      case True
      show ?thesis unfolding True by (intro conjI ea o ll)
    next
      case False
      with i have "Suc a \<le> i \<and> i < b" by simp
      with i6 show ?thesis by blast
    qed
  qed
  show ?thesis unfolding patched_def by (intro conjI c1 i2 c3 c4 c5 c6)
qed

lemma patch_index_entries:
  assumes "patch_index nsl (int s) (map int [a..<b]) (buf, cumulative_length nsl a)
             = Inr (buf', off')"
  shows "patched nsl s a b buf buf' off'"
  using assms
proof (induction "b - a" arbitrary: a buf)
  case 0
  from "0.hyps" have ba: "b \<le> a" by simp
  then have "[a..<b] = []" by simp
  with "0.prems" have "buf' = buf" "off' = cumulative_length nsl a" by simp_all
  with patched_empty[OF ba] show ?case by simp
next
  case (Suc n)
  from Suc.hyps(2) have ab: "a < b" and n: "n = b - Suc a" by simp_all
  from ab have up: "[a..<b] = a # [Suc a..<b]" by (simp add: upt_conv_Cons)
  from Suc.prems have p: "patch_index nsl (int s) (int a # map int [Suc a..<b])
               (buf, cumulative_length nsl a) = Inr (buf', off')"
    by (simp only: up list.map)
  note st = patch_index_step[OF p]
  note fits = st[THEN conjunct1]
  note al = st[THEN conjunct2, THEN conjunct1]
  note o = st[THEN conjunct2, THEN conjunct2, THEN conjunct1]
    st[THEN conjunct2, THEN conjunct2, THEN conjunct2, THEN conjunct1]
  note ll = st[THEN conjunct2, THEN conjunct2, THEN conjunct2, THEN conjunct2, THEN conjunct1]
  note st[THEN conjunct2, THEN conjunct2, THEN conjunct2, THEN conjunct2, THEN conjunct2]
  then have rec: "patch_index nsl (int s) (map int [Suc a..<b])
            (take (s + a * 8) buf @ (le_bytes32 (cumulative_length nsl a)
               @ le_bytes32 (int (length (nsl ! a)))) @ drop (s + a * 8 + 8) buf,
             cumulative_length nsl (Suc a)) = Inr (buf', off')"
    by (simp only: cumulative_length_Suc[OF al] append_assoc)
  show ?case by (rule patched_step[OF ab fits al o ll Suc.hyps(1)[OF n rec]])
qed

subsection \<open>A successful rebuild, step by step\<close>

lemma process_scw_success:
  assumes "process_scw c fb txt = Inr out"
  obtains h header_txt new_strings new_str_list new_index off packed_header where
    "unpack_header (read_bytes fb 0 (int FileHeadLen)) = Inr h"
    "parse_txt txt = Inr (header_txt, new_strings)"
    "header_txt \<noteq> []" "new_strings \<noteq> []"
    "declared_count header_txt (lit ''STRING_COUNT'') = Inr (str_count h)"
    "declared_count header_txt (lit ''TEXT_COUNT'') = Inr (text_count h)"
    "encode_all c new_strings = Inr new_str_list"
    "patch_index new_str_list (cmd_count h * 8) (py_range (str_count h))
       (index_data_of h (read_bytes fb FileHeadLen (content_len h)), 0) = Inr (new_index, off)"
    "pack_header (h\<lparr>content_len :=
         int (length (new_index @ cmd_data_of h (read_bytes fb FileHeadLen (content_len h))
                @ concat new_str_list
                @ addon_data_of h (read_bytes fb FileHeadLen (content_len h)))),
       str_size := int (length (concat new_str_list))\<rparr>) = Inr packed_header"
    "out = packed_header @ new_index @ cmd_data_of h (read_bytes fb FileHeadLen (content_len h))
             @ concat new_str_list @ addon_data_of h (read_bytes fb FileHeadLen (content_len h))"
    "- 1 \<le> content_len h"
proof -
  from assms obtain h where h: "unpack_header (read_bytes fb 0 (int FileHeadLen)) = Inr h"
    by (auto simp: process_scw_def f_read_def bnd_def raise_def split: sum.splits if_splits)
  from assms h have cl: "\<not> content_len h < - 1"
    by (auto simp: process_scw_def f_read_def bnd_def raise_def split: sum.splits if_splits)
  let ?content = "read_bytes fb FileHeadLen (content_len h)"
  from assms h cl obtain parsed where p: "parse_txt txt = Inr parsed"
    by (auto simp: process_scw_def f_read_def bnd_def raise_def Let_def split: sum.splits if_splits)
  obtain header_txt new_strings where pp: "parsed = (header_txt, new_strings)" by (cases parsed)
  from assms h cl p pp have ne: "header_txt \<noteq> []" "new_strings \<noteq> []"
    by (auto simp: process_scw_def f_read_def bnd_def raise_def Let_def split: sum.splits if_splits)
  from assms h cl p pp ne obtain sct where sct: "declared_count header_txt (lit ''STRING_COUNT'') = Inr sct"
    by (auto simp: process_scw_def f_read_def bnd_def raise_def Let_def split: sum.splits if_splits)
  from assms h cl p pp ne sct obtain tct where tct: "declared_count header_txt (lit ''TEXT_COUNT'') = Inr tct"
    by (auto simp: process_scw_def f_read_def bnd_def raise_def Let_def split: sum.splits if_splits)
  from assms h cl p pp ne sct tct have eq: "sct = str_count h" "tct = text_count h"
    by (auto simp: process_scw_def f_read_def bnd_def raise_def Let_def split: sum.splits if_splits)
  from assms h cl p pp ne sct tct eq obtain nsl where nsl: "encode_all c new_strings = Inr nsl"
    by (auto simp: process_scw_def f_read_def bnd_def raise_def Let_def split: sum.splits if_splits)
  from assms h cl p pp ne sct tct eq nsl obtain patched where
    pt: "patch_index nsl (cmd_count h * 8) (py_range (str_count h))
           (index_data_of h ?content, 0) = Inr patched"
    by (auto simp: process_scw_def f_read_def bnd_def raise_def Let_def split: sum.splits if_splits)
  obtain new_index off where pq: "patched = (new_index, off)" by (cases patched)
  from assms h cl p pp ne sct tct eq nsl pt pq obtain ph where
    ph: "pack_header (h\<lparr>content_len :=
         int (length (new_index @ cmd_data_of h ?content @ concat nsl @ addon_data_of h ?content)),
       str_size := int (length (concat nsl))\<rparr>) = Inr ph"
    by (auto simp: process_scw_def f_read_def bnd_def raise_def Let_def split: sum.splits if_splits)
  from assms h cl p pp ne sct tct eq nsl pt pq ph
  have out: "out = ph @ new_index @ cmd_data_of h ?content @ concat nsl @ addon_data_of h ?content"
    by (auto simp: process_scw_def f_read_def bnd_def raise_def Let_def split: sum.splits if_splits)
  from h p pp ne sct tct eq nsl pt pq ph out cl show ?thesis
    by (intro that[of h header_txt new_strings nsl new_index off ph]) simp_all
qed


subsection \<open>The header, unpacked and packed again\<close>

lemma drop_drop_sum: "drop n (drop k xs) = drop (k + n) xs"
  unfolding drop_drop add.commute[of n k] ..

lemma slice_join:
  "take n (drop k xs) @ take m (drop (k + n) xs) = take (n + m) (drop k xs)"
  unfolding drop_drop_sum[symmetric] take_add ..

lemma slice_rest: "take n (drop k xs) @ drop (k + n) xs = drop k xs"
  unfolding drop_drop_sum[symmetric] by (rule append_take_drop_id)

lemma pack_s_exact: "length bs = n \<Longrightarrow> pack_s n bs = bs"
  by (simp add: pack_s_def)

lemma header_slices:
  assumes len: "length hb = 452"
  shows "take 16 hb @ take 4 (drop 16 hb) @ take 4 (drop 20 hb) = take 24 hb"
    and "take 4 (drop 28 hb) @ take 4 (drop 32 hb) @ take 4 (drop 36 hb) @ take 4 (drop 40 hb)
           @ take 4 (drop 44 hb) @ take 4 (drop 48 hb) = take 24 (drop 28 hb)"
    and "take 4 (drop 56 hb) @ take 4 (drop 60 hb) @ take 4 (drop 64 hb)
           @ take 128 (drop 68 hb) @ take 256 (drop 196 hb) = drop 56 hb"
proof -
  have a1: "take 4 (drop 16 hb) @ take 4 (drop 20 hb) = take 8 (drop 16 hb)"
    using slice_join[of 4 16 hb 4] by simp
  have a2: "take 16 hb @ take 8 (drop 16 hb) = take 24 hb"
    using slice_join[of 16 0 hb 8] by simp
  show "take 16 hb @ take 4 (drop 16 hb) @ take 4 (drop 20 hb) = take 24 hb"
    by (simp only: a1 a2)
  have b1: "take 4 (drop 44 hb) @ take 4 (drop 48 hb) = take 8 (drop 44 hb)"
    using slice_join[of 4 44 hb 4] by simp
  have b2: "take 4 (drop 40 hb) @ take 8 (drop 44 hb) = take 12 (drop 40 hb)"
    using slice_join[of 4 40 hb 8] by simp
  have b3: "take 4 (drop 36 hb) @ take 12 (drop 40 hb) = take 16 (drop 36 hb)"
    using slice_join[of 4 36 hb 12] by simp
  have b4: "take 4 (drop 32 hb) @ take 16 (drop 36 hb) = take 20 (drop 32 hb)"
    using slice_join[of 4 32 hb 16] by simp
  have b5: "take 4 (drop 28 hb) @ take 20 (drop 32 hb) = take 24 (drop 28 hb)"
    using slice_join[of 4 28 hb 20] by simp
  show "take 4 (drop 28 hb) @ take 4 (drop 32 hb) @ take 4 (drop 36 hb) @ take 4 (drop 40 hb)
           @ take 4 (drop 44 hb) @ take 4 (drop 48 hb) = take 24 (drop 28 hb)"
    by (simp only: b1 b2 b3 b4 b5)
  have c0: "take 256 (drop 196 hb) = drop 196 hb" using len by simp
  have c1: "take 128 (drop 68 hb) @ drop 196 hb = drop 68 hb"
    using slice_rest[of 128 68 hb] by simp
  have c2: "take 4 (drop 64 hb) @ drop 68 hb = drop 64 hb"
    using slice_rest[of 4 64 hb] by simp
  have c3: "take 4 (drop 60 hb) @ drop 64 hb = drop 60 hb"
    using slice_rest[of 4 60 hb] by simp
  have c4: "take 4 (drop 56 hb) @ drop 60 hb = drop 56 hb"
    using slice_rest[of 4 56 hb] by simp
  show "take 4 (drop 56 hb) @ take 4 (drop 60 hb) @ take 4 (drop 64 hb)
           @ take 128 (drop 68 hb) @ take 256 (drop 196 hb) = drop 56 hb"
    by (simp only: c0 c1 c2 c3 c4)
qed

lemma pack_header_patched:
  assumes u: "unpack_header hb = Inr h"
    and p: "pack_header (h\<lparr>content_len := a, str_size := b\<rparr>) = Inr ph"
  shows "ph = take 24 hb @ le_bytes32 (a mod 2 ^ 32) @ take 24 (drop 28 hb)
              @ le_bytes32 (b mod 2 ^ 32) @ drop 56 hb"
    and "in_i32 a" and "in_i32 b" and "length hb = 452"
proof -
  from u have len: "length hb = 452"
    by (auto simp: unpack_header_def Pad2Len_def split: if_splits)
  then show "length hb = 452" .
  from u len have h: "h = \<lparr>magic = take 16 hb,
                main_v = s32_at hb 16, is_compressed = s32_at hb 20,
                content_len = s32_at hb 24, comp_len = s32_at hb 28,
                minor_v = s32_at hb 32, cmd_count = s32_at hb 36,
                str_count = s32_at hb 40, addon_count = s32_at hb 44,
                cmd_size = s32_at hb 48, str_size = s32_at hb 52,
                addon_size = s32_at hb 56, pad1 = s32_at hb 60,
                text_count = s32_at hb 64,
                pad2 = take 128 (drop 68 hb),
                desc = take 256 (drop 196 hb)\<rparr>"
    by (simp add: unpack_header_def Pad2Len_def)
  from p show "in_i32 a" "in_i32 b"
    by (auto simp: pack_header_def header_ints_def split: if_splits)
  have f: "\<And>off. off + 4 \<le> 452 \<Longrightarrow>
              le_bytes32 (s32_at hb off mod 4294967296) = take 4 (drop off hb)"
    using repack_field[of _ hb] len by simp
  have s1: "pack_s 16 (take 16 hb) = take 16 hb" using len by (intro pack_s_exact) simp
  have s2: "pack_s 128 (take 128 (drop 68 hb)) = take 128 (drop 68 hb)"
    using len by (intro pack_s_exact) simp
  have s3: "pack_s 256 (take 256 (drop 196 hb)) = take 256 (drop 196 hb)"
    using len by (intro pack_s_exact) simp
  from p have "ph = take 16 hb @ take 4 (drop 16 hb) @ take 4 (drop 20 hb)
        @ le_bytes32 (a mod 4294967296)
        @ take 4 (drop 28 hb) @ take 4 (drop 32 hb) @ take 4 (drop 36 hb) @ take 4 (drop 40 hb)
           @ take 4 (drop 44 hb) @ take 4 (drop 48 hb)
        @ le_bytes32 (b mod 4294967296)
        @ take 4 (drop 56 hb) @ take 4 (drop 60 hb) @ take 4 (drop 64 hb)
           @ take 128 (drop 68 hb) @ take 256 (drop 196 hb)"
    unfolding h
    by (auto simp: pack_header_def header_ints_def Pad2Len_def f s1 s2 s3 split: if_splits)
  then have "ph = (take 16 hb @ take 4 (drop 16 hb) @ take 4 (drop 20 hb))
        @ le_bytes32 (a mod 4294967296)
        @ (take 4 (drop 28 hb) @ take 4 (drop 32 hb) @ take 4 (drop 36 hb) @ take 4 (drop 40 hb)
           @ take 4 (drop 44 hb) @ take 4 (drop 48 hb))
        @ le_bytes32 (b mod 4294967296)
        @ (take 4 (drop 56 hb) @ take 4 (drop 60 hb) @ take 4 (drop 64 hb)
           @ take 128 (drop 68 hb) @ take 256 (drop 196 hb))"
    by (simp only: append_assoc)
  then have "ph = take 24 hb @ le_bytes32 (a mod 4294967296) @ take 24 (drop 28 hb)
              @ le_bytes32 (b mod 4294967296) @ drop 56 hb"
    by (simp only: header_slices[OF len])
  then show "ph = take 24 hb @ le_bytes32 (a mod 2 ^ 32) @ take 24 (drop 28 hb)
              @ le_bytes32 (b mod 2 ^ 32) @ drop 56 hb"
    by simp
qed


subsection \<open>The encoded strings\<close>

lemma encode_all_nth:
  assumes "encode_all c strs = Inr encs"
  shows "length encs = length strs \<and> (\<forall>i < length strs. encode_string c (strs ! i) = Inr (encs ! i))"
  using assms
proof (induction strs arbitrary: encs)
  case Nil
  then show ?case by simp
next
  case (Cons s strs)
  from Cons.prems obtain b r where b: "encode_string c s = Inr b"
    and r: "encode_all c strs = Inr r" and e: "encs = b # r"
    by (auto split: sum.splits)
  from Cons.IH[OF r] b e show ?case by (auto simp: nth_Cons split: nat.splits)
qed

lemma encode_string_shape:
  assumes "encode_string c s = Inr e"
  shows "\<exists>bs. e = bs @ [0]
          \<and> (encode_text c Strict s = Inr bs \<or> encode_text c Replace s = Inr bs)"
  using assms by (auto simp: encode_string_def split: sum.splits)

lemma concat_segment:
  assumes "i < length encs"
  shows "take (length (encs ! i)) (drop (length (concat (take i encs))) (concat encs)) = encs ! i"
proof -
  have "encs = take i encs @ encs ! i # drop (Suc i) encs"
    using assms by (rule id_take_nth_drop)
  then have "concat encs = concat (take i encs) @ encs ! i @ concat (drop (Suc i) encs)"
    by (metis concat.simps(2) concat_append)
  then show ?thesis by simp
qed

lemma py_range_nat: "py_range n = map int [0..<nat n]"
  by (simp add: py_range_def)

lemma length_patched_header:
  assumes "length hb = 452"
  shows "length (take 24 hb @ le_bytes32 x @ take 24 (drop 28 hb) @ le_bytes32 y @ drop 56 hb) = 452"
  using assms by (simp add: length_le_bytes32)

text \<open>The facts about a successful rebuild that the claims use.\<close>

lemma rebuild_layout:
  assumes ok: "process_scw c fb txt = Inr out"
    and hd: "unpack_header (read_bytes fb 0 (int FileHeadLen)) = Inr h"
    and cc: "0 \<le> cmd_count h"
  obtains header_txt new_strings encs new_index where
    "parse_txt txt = Inr (header_txt, new_strings)"
    "encode_all c new_strings = Inr encs"
    "patched encs (nat (cmd_count h) * 8) 0 (nat (str_count h))
       (index_data_of h (read_bytes fb FileHeadLen (content_len h))) new_index
       (cumulative_length encs (nat (str_count h)))"
    "out = (take 24 fb @ le_bytes32 (int (length out) - int FileHeadLen) @ take 24 (drop 28 fb)
              @ le_bytes32 (int (length (concat encs))) @ take 396 (drop 56 fb))
           @ new_index @ cmd_data_of h (read_bytes fb FileHeadLen (content_len h))
           @ concat encs @ addon_data_of h (read_bytes fb FileHeadLen (content_len h))"
    "int (length out) - int FileHeadLen < 2 ^ 31"
    "declared_count header_txt (lit ''STRING_COUNT'') = Inr (str_count h)"
    "declared_count header_txt (lit ''TEXT_COUNT'') = Inr (text_count h)"
proof (rule process_scw_success[OF ok])
  fix h' header_txt new_strings encs new_index off ph
  assume h': "unpack_header (read_bytes fb 0 (int FileHeadLen)) = Inr h'"
    and p: "parse_txt txt = Inr (header_txt, new_strings)"
    and "header_txt \<noteq> []" and "new_strings \<noteq> []"
    and d1': "declared_count header_txt (lit ''STRING_COUNT'') = Inr (str_count h')"
    and d2': "declared_count header_txt (lit ''TEXT_COUNT'') = Inr (text_count h')"
    and e: "encode_all c new_strings = Inr encs"
    and pt': "patch_index encs (cmd_count h' * 8) (py_range (str_count h'))
       (index_data_of h' (read_bytes fb FileHeadLen (content_len h')), 0) = Inr (new_index, off)"
    and ph': "pack_header (h'\<lparr>content_len :=
         int (length (new_index @ cmd_data_of h' (read_bytes fb FileHeadLen (content_len h'))
                @ concat encs
                @ addon_data_of h' (read_bytes fb FileHeadLen (content_len h')))),
       str_size := int (length (concat encs))\<rparr>) = Inr ph"
    and out': "out = ph @ new_index @ cmd_data_of h' (read_bytes fb FileHeadLen (content_len h'))
             @ concat encs @ addon_data_of h' (read_bytes fb FileHeadLen (content_len h'))"
  from h' hd have hh: "h' = h" by simp
  note d1 = d1'[unfolded hh] and d2 = d2'[unfolded hh] and pt = pt'[unfolded hh]
    and ph = ph'[unfolded hh] and out = out'[unfolded hh]
  let ?content = "read_bytes fb FileHeadLen (content_len h)"
  let ?nc = "new_index @ cmd_data_of h ?content @ concat encs @ addon_data_of h ?content"
  let ?hb = "read_bytes fb 0 (int FileHeadLen)"
  note h = hd
  from cc have s: "cmd_count h * 8 = int (nat (cmd_count h) * 8)" by simp
  have c0: "cumulative_length encs 0 = 0" by (simp add: cumulative_length_def)
  from pt have "patch_index encs (int (nat (cmd_count h) * 8)) (map int [0..<nat (str_count h)])
       (index_data_of h ?content, cumulative_length encs 0) = Inr (new_index, off)"
    by (simp only: s[symmetric] py_range_nat c0)
  from patch_index_entries[OF this]
  have pd: "patched encs (nat (cmd_count h) * 8) 0 (nat (str_count h))
       (index_data_of h ?content) new_index off" .
  then have "off = cumulative_length encs (nat (str_count h))" by (simp add: patched_def)
  with pd have pd': "patched encs (nat (cmd_count h) * 8) 0 (nat (str_count h))
       (index_data_of h ?content) new_index (cumulative_length encs (nat (str_count h)))"
    by simp
  note pk = pack_header_patched[OF h ph]
  have hb: "?hb = take 452 fb" by (simp add: read_bytes_def FileHeadLen_def)
  from pk(4) have lfb: "452 \<le> length fb" unfolding hb by simp
  have t1: "take 24 ?hb = take 24 fb" unfolding hb by (simp add: min_def)
  have t2: "take 24 (drop 28 ?hb) = take 24 (drop 28 fb)"
    unfolding hb by (simp add: drop_take min_def)
  have t3: "drop 56 ?hb = take 396 (drop 56 fb)" unfolding hb by (simp add: drop_take)
  have lph: "length ph = 452" unfolding pk(1) by (rule length_patched_header[OF pk(4)])
  have lo: "int (length out) - int FileHeadLen = int (length ?nc)"
    unfolding out using lph by (simp add: FileHeadLen_def)
  from pk(2) have m1: "int (length ?nc) mod 2 ^ 32 = int (length ?nc)"
    by (simp add: in_i32_def)
  from pk(3) have m2: "int (length (concat encs)) mod 2 ^ 32 = int (length (concat encs))"
    by (simp add: in_i32_def)
  have phv: "ph = take 24 fb @ le_bytes32 (int (length out) - int FileHeadLen)
                @ take 24 (drop 28 fb) @ le_bytes32 (int (length (concat encs)))
                @ take 396 (drop 56 fb)"
    unfolding lo using pk(1) unfolding m1 m2 t1 t2 t3 .
  have o': "out = (take 24 fb @ le_bytes32 (int (length out) - int FileHeadLen)
              @ take 24 (drop 28 fb) @ le_bytes32 (int (length (concat encs)))
              @ take 396 (drop 56 fb))
           @ new_index @ cmd_data_of h ?content @ concat encs @ addon_data_of h ?content"
    using out phv by simp
  from pk(2) lo have bound: "int (length out) - int FileHeadLen < 2 ^ 31"
    by (simp add: in_i32_def)
  show thesis by (rule that[OF p e pd' o' bound d1 d2])
qed

subsection \<open>A concrete rebuild\<close>

lemma rebuilt_value:
  "process_scw ascii_range scenario_container edited_document = Inr rebuilt_container"
  by code_simp

lemma edited_parse:
  "parse_txt edited_document
     = Inr ([(lit ''STRING_COUNT'', lit ''2''), (lit ''TEXT_COUNT'', lit ''2''),
             (lit ''FILE_DESCRIPTION'', [])],
            [lit ''ABCD'', lit ''CD''])"
  by code_simp

lemma edited_encoded:
  "encode_all ascii_range [lit ''ABCD'', lit ''CD'']
     = Inr [[0x41, 0x42, 0x43, 0x44, 0], [0x43, 0x44, 0]]"
  by code_simp


lemma entry_after_header:
  assumes lh: "length hdr = 452" and fit: "k * 8 + 8 \<le> length idx"
    and e: "take 8 (drop (k * 8) idx) = le_bytes32 x @ le_bytes32 y"
    and x: "0 \<le> x" "x < 2 ^ 32" and y: "0 \<le> y" "y < 2 ^ 32"
  shows "le_u32 (read_bytes (hdr @ idx @ rest) (FileHeadLen + k * 8) 4) = x"
    and "le_u32 (read_bytes (hdr @ idx @ rest) (FileHeadLen + k * 8 + 4) 4) = y"
proof -
  define D where "D = drop (k * 8) idx"
  have lD: "8 \<le> length D" using fit by (simp add: D_def)
  have d: "drop (FileHeadLen + k * 8) (hdr @ idx @ rest) = D @ rest"
    using lh fit by (simp add: FileHeadLen_def D_def)
  have e': "take 8 D = le_bytes32 x @ le_bytes32 y" using e by (simp add: D_def)
  have "take 4 D = take 4 (take 8 D)" by (simp add: min_def)
  also have "\<dots> = le_bytes32 x" unfolding e' by (simp add: length_le_bytes32)
  finally have a: "take 4 D = le_bytes32 x" .
  have "take 4 (drop 4 D) = drop 4 (take 8 D)" by (simp add: drop_take)
  also have "\<dots> = le_bytes32 y" unfolding e' by (simp add: length_le_bytes32)
  finally have b: "take 4 (drop 4 D) = le_bytes32 y" .
  have "read_bytes (hdr @ idx @ rest) (FileHeadLen + k * 8) 4 = take 4 (D @ rest)"
    unfolding read_bytes_def d by simp
  also have "\<dots> = take 4 D" using lD by simp
  finally show "le_u32 (read_bytes (hdr @ idx @ rest) (FileHeadLen + k * 8) 4) = x"
    unfolding a using le_u32_le_bytes32[OF x] by simp
  have "drop (FileHeadLen + k * 8 + 4) (hdr @ idx @ rest)
          = drop 4 (drop (FileHeadLen + k * 8) (hdr @ idx @ rest))"
    by (rule drop_drop_sum[symmetric])
  also have "\<dots> = drop 4 D @ rest" unfolding d using lD by simp
  finally have "read_bytes (hdr @ idx @ rest) (FileHeadLen + k * 8 + 4) 4 = take 4 (drop 4 D @ rest)"
    by (simp add: read_bytes_def)
  also have "\<dots> = take 4 (drop 4 D)" using lD by simp
  finally show "le_u32 (read_bytes (hdr @ idx @ rest) (FileHeadLen + k * 8 + 4) 4) = y"
    unfolding b using le_u32_le_bytes32[OF y] by simp
qed

subsection \<open>Slices of the content and of the output\<close>

lemma py_slice_clamped:
  assumes "0 \<le> a" "a \<le> b"
  shows "py_slice xs a b = take (nat (b - a)) (drop (nat a) xs)"
proof (cases "length xs \<le> nat a")
  case True
  then show ?thesis using assms by (simp add: py_slice_def slice_bound_def Let_def)
next
  case False
  then have a: "slice_bound (length xs) a = nat a" using assms by (simp add: slice_bound_def)
  show ?thesis
  proof (cases "nat b \<le> length xs")
    case True
    then have "slice_bound (length xs) b = nat b" using assms by (simp add: slice_bound_def)
    moreover have "nat b - nat a = nat (b - a)" using assms by simp
    ultimately show ?thesis using a by (simp add: py_slice_def Let_def)
  next
    case nb: False
    then have b: "slice_bound (length xs) b = length xs" using assms by (simp add: slice_bound_def)
    have "length (drop (nat a) xs) \<le> nat (b - a)" using nb assms by simp
    then have "take (nat (b - a)) (drop (nat a) xs) = drop (nat a) xs" by simp
    then show ?thesis using a b by (simp add: py_slice_def Let_def)
  qed
qed


lemma segment_after:
  assumes "length A = a"
  shows "take (length B) (drop a (A @ B @ C)) = B"
  using assms by simp

lemma segment_within:
  assumes "length A = a" "k + n \<le> length B"
  shows "take n (drop (a + k) (A @ B @ C)) = take n (drop k B)"
  using assms by simp

lemma index_region:
  assumes "0 \<le> index_size_of h"
  shows "index_data_of h content = take (nat (index_size_of h)) content"
  unfolding index_data_of_def using py_slice_clamped[of 0 "index_size_of h" content] assms
  by simp

lemma cmd_region:
  assumes "0 \<le> index_size_of h" "0 \<le> cmd_size h"
  shows "cmd_data_of h content = take (nat (cmd_size h)) (drop (nat (index_size_of h)) content)"
  unfolding cmd_data_of_def
  using py_slice_clamped[of "index_size_of h" "index_size_of h + cmd_size h" content] assms
  by simp


lemma concat_segment_fits:
  assumes "i < length encs"
  shows "length (concat (take i encs)) + length (encs ! i) \<le> length (concat encs)"
proof -
  have "encs = take i encs @ encs ! i # drop (Suc i) encs"
    using assms by (rule id_take_nth_drop)
  then have "concat encs = concat (take i encs) @ encs ! i @ concat (drop (Suc i) encs)"
    by (metis concat.simps(2) concat_append)
  then have "length (concat encs) = length (concat (take i encs)) + length (encs ! i)
                + length (concat (drop (Suc i) encs))"
    by simp
  then show ?thesis by simp
qed








lemma full_rebuilt_value:
  "process_scw ascii_range full_container edited_document = Inr full_rebuilt"
  by code_simp

lemma full_header_value:
  "unpack_header (read_bytes full_container 0 (int FileHeadLen)) = Inr full_header"
  by code_simp

text \<open>
  Claim C3, for a container whose command count is not negative. After a successful
  rebuild, entry \<open>i\<close> of the string group in the output (\<open>i\<close> below the string count) holds
  as start the total encoded length of the strings \<open>0\<close> to \<open>i - 1\<close> (0 for the first one, and
  the start of the next entry is this start plus this length) and as length the length of
  the encoded string \<open>i\<close>, which is the encoding of the string followed by one NUL byte.
  The \<open>str_size\<close> field of the output (offset 52) holds the total length of the encoded
  strings. When moreover the addon count and the command size are not negative and the
  index and the command region fit in the content, the bytes of the output from
  \<open>FileHeadLen + index size + command size\<close> on are the encoded strings one after the
  other, and the encoded string \<open>i\<close> is the bytes of the output at the start of its entry,
  over the length of its entry.
\<close>

theorem string_index_recomputed:
  assumes ok: "process_scw c fb txt = Inr out"
    and h: "unpack_header (read_bytes fb 0 (int FileHeadLen)) = Inr h"
    and p: "parse_txt txt = Inr (header_txt, new_strings)"
    and e: "encode_all c new_strings = Inr encs"
    and cc: "0 \<le> cmd_count h"
    and i: "i < nat (str_count h)"
  shows "string_entry out (cmd_count h) i = (cumulative_length encs i, int (length (encs ! i)))
     \<and> cumulative_length encs 0 = 0
     \<and> cumulative_length encs (Suc i) = cumulative_length encs i + int (length (encs ! i))
     \<and> (\<exists>bs. encs ! i = bs @ [0]
            \<and> (encode_text c Strict (new_strings ! i) = Inr bs
                \<or> encode_text c Replace (new_strings ! i) = Inr bs))
     \<and> take (length (encs ! i)) (drop (nat (cumulative_length encs i)) (concat encs)) = encs ! i
     \<and> take 4 (drop 52 out) = le_bytes32 (int (length (concat encs)))
     \<and> (0 \<le> addon_count h \<and> 0 \<le> cmd_size h
          \<and> index_size_of h + cmd_size h
              \<le> int (length (read_bytes fb FileHeadLen (content_len h)))
        \<longrightarrow> take (length (concat encs))
              (drop (FileHeadLen + nat (index_size_of h) + nat (cmd_size h)) out) = concat encs
          \<and> take (length (encs ! i))
              (drop (FileHeadLen + nat (index_size_of h) + nat (cmd_size h)
                       + nat (cumulative_length encs i)) out) = encs ! i)"
proof (rule rebuild_layout[OF ok h cc])
  fix header_txt' new_strings' and encs' :: "byte list list" and new_index
  let ?content = "read_bytes fb FileHeadLen (content_len h)"
  let ?hdr = "take 24 fb @ le_bytes32 (int (length out) - int FileHeadLen) @ take 24 (drop 28 fb)
              @ le_bytes32 (int (length (concat encs))) @ take 396 (drop 56 fb)"
  assume p': "parse_txt txt = Inr (header_txt', new_strings')"
    and e': "encode_all c new_strings' = Inr encs'"
    and pd': "patched encs' (nat (cmd_count h) * 8) 0 (nat (str_count h))
       (index_data_of h ?content) new_index (cumulative_length encs' (nat (str_count h)))"
    and out': "out = (take 24 fb @ le_bytes32 (int (length out) - int FileHeadLen)
              @ take 24 (drop 28 fb) @ le_bytes32 (int (length (concat encs')))
              @ take 396 (drop 56 fb)) @ new_index @ cmd_data_of h ?content
           @ concat encs' @ addon_data_of h ?content"
  from p p' have "new_strings' = new_strings" by simp
  with e e' have ee: "encs' = encs" by simp
  note pd = pd'[unfolded ee] and out = out'[unfolded ee]
  from unpack_header_length[OF h] have lfb: "452 \<le> length fb" by (simp add: FileHeadLen_def)
  have lh: "length ?hdr = 452" using lfb by (simp add: length_le_bytes32)
  define k where "k = nat (cmd_count h) + i"
  from pd i have n: "nat (str_count h) \<le> length encs"
    and fitn: "nat (cmd_count h) * 8 + nat (str_count h) * 8 \<le> length (index_data_of h ?content)"
    and ln: "length new_index = length (index_data_of h ?content)"
    by (auto simp: patched_def)
  from pd i have ent: "take 8 (drop (nat (cmd_count h) * 8 + i * 8) new_index)
             = le_bytes32 (cumulative_length encs i) @ le_bytes32 (int (length (encs ! i)))"
    and x: "0 \<le> cumulative_length encs i" "cumulative_length encs i < 2 ^ 32"
    and y: "int (length (encs ! i)) < 2 ^ 32"
    by (auto simp: patched_def)
  have k8: "k * 8 = nat (cmd_count h) * 8 + i * 8" by (simp add: k_def algebra_simps)
  have fit: "k * 8 + 8 \<le> length new_index" unfolding k8 ln using fitn i by linarith
  have y0: "0 \<le> int (length (encs ! i))" by simp
  note ea = entry_after_header[OF lh fit ent[folded k8] x y0 y]
  have se: "string_entry out (cmd_count h) i = (cumulative_length encs i, int (length (encs ! i)))"
    unfolding string_entry_def Let_def k_def[symmetric]
    by (subst (1 2) out) (simp only: ea)
  from i n have il: "i < length encs" by simp
  from encode_all_nth[OF e] il have es: "encode_string c (new_strings ! i) = Inr (encs ! i)"
    by simp
  have cs: "nat (cumulative_length encs i) = length (concat (take i encs))"
    by (simp add: cumulative_length_def)
  have c0: "cumulative_length encs 0 = 0" by (simp add: cumulative_length_def)
  have sz: "take 4 (drop 52 out) = le_bytes32 (int (length (concat encs)))"
  proof -
    define A where "A = take 24 fb @ le_bytes32 (int (length out) - int FileHeadLen)
                          @ take 24 (drop 28 fb)"
    define B where "B = le_bytes32 (int (length (concat encs)))"
    define C where "C = take 396 (drop 56 fb) @ new_index @ cmd_data_of h ?content
           @ concat encs @ addon_data_of h ?content"
    have lA: "length A = 52" using lfb by (simp add: A_def length_le_bytes32)
    have lB: "length B = 4" by (simp add: B_def length_le_bytes32)
    have o: "out = A @ B @ C" by (subst out) (simp add: A_def B_def C_def)
    have "take (length B) (drop 52 (A @ B @ C)) = B" by (rule segment_after[OF lA])
    then have "take 4 (drop 52 out) = B" unfolding o[symmetric] lB .
    then show ?thesis unfolding B_def .
  qed
  have reg: "0 \<le> addon_count h \<and> 0 \<le> cmd_size h
          \<and> index_size_of h + cmd_size h \<le> int (length ?content)
        \<longrightarrow> take (length (concat encs))
              (drop (FileHeadLen + nat (index_size_of h) + nat (cmd_size h)) out) = concat encs
          \<and> take (length (encs ! i))
              (drop (FileHeadLen + nat (index_size_of h) + nat (cmd_size h)
                       + nat (cumulative_length encs i)) out) = encs ! i"
  proof (rule impI)
    assume w: "0 \<le> addon_count h \<and> 0 \<le> cmd_size h
          \<and> index_size_of h + cmd_size h \<le> int (length ?content)"
    from w have ac: "0 \<le> addon_count h" and cz: "0 \<le> cmd_size h"
      and ft: "index_size_of h + cmd_size h \<le> int (length ?content)" by simp_all
    from cc ac i have iz: "0 \<le> index_size_of h" by (simp add: index_size_of_def)
    have li: "length new_index = nat (index_size_of h)"
      unfolding ln index_region[OF iz] using ft cz iz by simp
    have lc: "length (cmd_data_of h ?content) = nat (cmd_size h)"
      unfolding cmd_region[OF iz cz] using ft cz iz by simp
    define A where "A = ?hdr @ new_index @ cmd_data_of h ?content"
    define a where "a = FileHeadLen + nat (index_size_of h) + nat (cmd_size h)"
    have lA: "length A = a" unfolding A_def a_def using lh li lc by (simp add: FileHeadLen_def)
    have o: "out = A @ concat encs @ addon_data_of h ?content"
      by (subst out) (simp add: A_def)
    have r1: "take (length (concat encs)) (drop a out) = concat encs"
      by (subst o) (rule segment_after[OF lA])
    have "take (length (encs ! i)) (drop (a + nat (cumulative_length encs i)) out)
            = take (length (encs ! i)) (drop (nat (cumulative_length encs i)) (concat encs))"
      unfolding cs by (subst o) (rule segment_within[OF lA concat_segment_fits[OF il]])
    also have "\<dots> = encs ! i" unfolding cs by (rule concat_segment[OF il])
    finally have r2: "take (length (encs ! i)) (drop (a + nat (cumulative_length encs i)) out)
            = encs ! i" .
    from r1 r2 show "take (length (concat encs))
              (drop (FileHeadLen + nat (index_size_of h) + nat (cmd_size h)) out) = concat encs
          \<and> take (length (encs ! i))
              (drop (FileHeadLen + nat (index_size_of h) + nat (cmd_size h)
                       + nat (cumulative_length encs i)) out) = encs ! i"
      unfolding a_def by (rule conjI)
  qed
  have sg: "take (length (encs ! i)) (drop (nat (cumulative_length encs i)) (concat encs))
              = encs ! i"
    unfolding cs by (rule concat_segment[OF il])
  have sc: "cumulative_length encs (Suc i) = cumulative_length encs i + int (length (encs ! i))"
    by (rule cumulative_length_Suc[OF il])
  from se c0 sc encode_string_shape[OF es] sg sz reg show ?thesis by (intro conjI)
qed

theorem string_index_recomputed_witness:
  "process_scw ascii_range full_container edited_document = Inr full_rebuilt
   \<and> unpack_header (read_bytes full_container 0 (int FileHeadLen)) = Inr full_header
   \<and> parse_txt edited_document
       = Inr ([(lit ''STRING_COUNT'', lit ''2''), (lit ''TEXT_COUNT'', lit ''2''),
               (lit ''FILE_DESCRIPTION'', [])],
              [lit ''ABCD'', lit ''CD''])
   \<and> encode_all ascii_range [lit ''ABCD'', lit ''CD'']
       = Inr [[0x41, 0x42, 0x43, 0x44, 0], [0x43, 0x44, 0]]
   \<and> 0 \<le> cmd_count full_header \<and> (1::nat) < nat (str_count full_header)
   \<and> 0 \<le> addon_count full_header \<and> 0 \<le> cmd_size full_header
   \<and> index_size_of full_header + cmd_size full_header
        \<le> int (length (read_bytes full_container FileHeadLen (content_len full_header)))
   \<and> string_entry full_rebuilt (cmd_count full_header) 1 = (5, 3)
   \<and> take 4 (drop 52 full_rebuilt) = le_bytes32 8
   \<and> take 8 (drop 487 full_rebuilt) = [0x41, 0x42, 0x43, 0x44, 0, 0x43, 0x44, 0]
   \<and> take 3 (drop 492 full_rebuilt) = [0x43, 0x44, 0]"
proof -
  have c: "0 \<le> cmd_count full_header" "(1::nat) < nat (str_count full_header)"
    by (simp_all add: full_header_def)
  have w1: "0 \<le> addon_count full_header" "0 \<le> cmd_size full_header"
    by (simp_all add: full_header_def)
  have w2: "index_size_of full_header + cmd_size full_header
        \<le> int (length (read_bytes full_container FileHeadLen (content_len full_header)))"
    by code_simp
  from w1 w2 have w: "0 \<le> addon_count full_header \<and> 0 \<le> cmd_size full_header
     \<and> index_size_of full_header + cmd_size full_header
        \<le> int (length (read_bytes full_container FileHeadLen (content_len full_header)))"
    by (intro conjI)
  note t = string_index_recomputed[OF full_rebuilt_value full_header_value edited_parse
             edited_encoded c]
  note t1 = t[THEN conjunct1]
  note t6 = t[THEN conjunct2, THEN conjunct2, THEN conjunct2, THEN conjunct2, THEN conjunct2,
              THEN conjunct1]
  note t7 = t[THEN conjunct2, THEN conjunct2, THEN conjunct2, THEN conjunct2, THEN conjunct2,
              THEN conjunct2, THEN mp, OF w]
  from t1 have r1: "string_entry full_rebuilt (cmd_count full_header) 1 = (5, 3)"
    by (simp add: cumulative_length_def)
  from t6 have r2: "take 4 (drop 52 full_rebuilt) = le_bytes32 8" by simp
  have lc: "length (concat [[0x41, 0x42, 0x43, 0x44, 0], [0x43, 0x44, 0 :: byte]]) = 8"
    by simp
  from t7[THEN conjunct1, unfolded lc]
  have r3: "take 8 (drop 487 full_rebuilt) = [0x41, 0x42, 0x43, 0x44, 0, 0x43, 0x44, 0]"
    by (simp add: full_header_def index_size_of_def FileHeadLen_def)
  have ln: "length ([[0x41, 0x42, 0x43, 0x44, 0], [0x43, 0x44, 0 :: byte]] ! 1) = 3"
    by simp
  from t7[THEN conjunct2, unfolded ln]
  have r4: "take 3 (drop 492 full_rebuilt) = [0x43, 0x44, 0]"
    by (simp add: full_header_def index_size_of_def FileHeadLen_def cumulative_length_def)
  from full_rebuilt_value full_header_value edited_parse edited_encoded c w1 w2 r1 r2 r3 r4
  show ?thesis by (intro conjI)
qed

text \<open>
  Claim C3 as stated does not hold for every rebuild. With a command count of \<open>-1\<close> and
  two strings the index is eight bytes long, and the loop writes both entries over the
  same eight bytes (the offset \<open>-8\<close> counts from the end of the buffer). The rebuild
  succeeds, the index of the output is the one entry \<open>(5, 3)\<close> of the second string, and
  this is what is read where the entry \<open>(0, 5)\<close> of the first string should be.
\<close>

theorem aliased_entries_counterexample:
  "process_scw ascii_range aliased_container edited_document = Inr aliased_rebuilt
   \<and> unpack_header (read_bytes aliased_container 0 (int FileHeadLen)) = Inr aliased_header
   \<and> cmd_count aliased_header = - 1 \<and> str_count aliased_header = 2
   \<and> encode_all ascii_range [lit ''ABCD'', lit ''CD'']
       = Inr [[0x41, 0x42, 0x43, 0x44, 0], [0x43, 0x44, 0]]
   \<and> drop FileHeadLen aliased_rebuilt
       = le_bytes32 5 @ le_bytes32 3 @ [0x41, 0x42, 0x43, 0x44, 0] @ [0x43, 0x44, 0]
   \<and> unpack_from_II (take 8 (drop FileHeadLen aliased_rebuilt))
         (cmd_count aliased_header * 8 + 0 * 8) = Inr (5, 3)
   \<and> (cumulative_length [[0x41, 0x42, 0x43, 0x44, 0], [0x43, 0x44, 0]] 0,
        int (length ([[0x41, 0x42, 0x43, 0x44, 0], [0x43, 0x44, 0 :: byte]] ! 0))) = (0, 5)"
proof -
  have 1: "process_scw ascii_range aliased_container edited_document = Inr aliased_rebuilt"
    by code_simp
  have 2: "unpack_header (read_bytes aliased_container 0 (int FileHeadLen)) = Inr aliased_header"
    by code_simp
  have 3: "cmd_count aliased_header = - 1" "str_count aliased_header = 2"
    by (simp_all add: aliased_header_def)
  have 4: "drop FileHeadLen aliased_rebuilt
       = le_bytes32 5 @ le_bytes32 3 @ [0x41, 0x42, 0x43, 0x44, 0] @ [0x43, 0x44, 0]"
    by code_simp
  have 5: "unpack_from_II (take 8 (drop FileHeadLen aliased_rebuilt))
         (cmd_count aliased_header * 8 + 0 * 8) = Inr (5, 3)"
    by code_simp
  have 6: "(cumulative_length [[0x41, 0x42, 0x43, 0x44, 0], [0x43, 0x44, 0]] 0,
        int (length ([[0x41, 0x42, 0x43, 0x44, 0], [0x43, 0x44, 0 :: byte]] ! 0))) = (0, 5)"
    by (simp add: cumulative_length_def)
  from 1 2 3 edited_encoded 4 5 6 show ?thesis by (intro conjI)
qed




subsection \<open>The four slices\<close>

text \<open>
  Claim C4, as the code has it. The splitter has no failure of its own: for sizes that
  are not negative, each region is the clamped slice of the content at the cumulative
  offset. When the four sizes fit in the content, each region has its declared length;
  when they exceed it, the regions together are just the content that is there, the
  ones reaching past its end cut short.
\<close>

theorem regions_are_clamped_slices:
  assumes "0 \<le> index_size_of h" "0 \<le> cmd_size h" "0 \<le> str_size h" "0 \<le> addon_size h"
  shows "index_data_of h content = take (nat (index_size_of h)) content
     \<and> cmd_data_of h content = take (nat (cmd_size h)) (drop (nat (index_size_of h)) content)
     \<and> str_data_of h content
         = take (nat (str_size h)) (drop (nat (index_size_of h + cmd_size h)) content)
     \<and> addon_data_of h content
         = take (nat (addon_size h))
             (drop (nat (index_size_of h + cmd_size h + str_size h)) content)
     \<and> (index_size_of h + cmd_size h + str_size h + addon_size h \<le> int (length content)
          \<longrightarrow> int (length (index_data_of h content)) = index_size_of h
            \<and> int (length (cmd_data_of h content)) = cmd_size h
            \<and> int (length (str_data_of h content)) = str_size h
            \<and> int (length (addon_data_of h content)) = addon_size h)
     \<and> (int (length content) < index_size_of h + cmd_size h + str_size h + addon_size h
          \<longrightarrow> index_data_of h content @ cmd_data_of h content @ str_data_of h content
                @ addon_data_of h content = content)"
proof -
  have i: "index_data_of h content = take (nat (index_size_of h)) content"
    unfolding index_data_of_def using py_slice_clamped[of 0 "index_size_of h" content] assms
    by simp
  have c: "cmd_data_of h content = take (nat (cmd_size h)) (drop (nat (index_size_of h)) content)"
    unfolding cmd_data_of_def
    using py_slice_clamped[of "index_size_of h" "index_size_of h + cmd_size h" content] assms
    by simp
  have s: "str_data_of h content
         = take (nat (str_size h)) (drop (nat (index_size_of h + cmd_size h)) content)"
    unfolding str_data_of_def
    using py_slice_clamped[of "index_size_of h + cmd_size h"
            "index_size_of h + cmd_size h + str_size h" content] assms
    by simp
  have a: "addon_data_of h content
         = take (nat (addon_size h))
             (drop (nat (index_size_of h + cmd_size h + str_size h)) content)"
    unfolding addon_data_of_def
    using py_slice_clamped[of "index_size_of h + cmd_size h + str_size h"
            "index_size_of h + cmd_size h + str_size h + addon_size h" content] assms
    by simp
  define n1 where "n1 = nat (index_size_of h)"
  define n2 where "n2 = nat (cmd_size h)"
  define n3 where "n3 = nat (str_size h)"
  define n4 where "n4 = nat (addon_size h)"
  have e: "nat (index_size_of h + cmd_size h) = n1 + n2"
    "nat (index_size_of h + cmd_size h + str_size h) = n1 + n2 + n3"
    using assms by (simp_all add: n1_def n2_def n3_def nat_add_distrib)
  have j: "take n1 content @ take n2 (drop n1 content) @ take n3 (drop (n1 + n2) content)
            @ take n4 (drop (n1 + n2 + n3) content) = take (n1 + n2 + n3 + n4) content"
  proof -
    have "take n3 (drop (n1 + n2) content) @ take n4 (drop (n1 + n2 + n3) content)
            = take (n3 + n4) (drop (n1 + n2) content)"
      by (rule slice_join)
    moreover have "take n2 (drop n1 content) @ take (n3 + n4) (drop (n1 + n2) content)
            = take (n2 + (n3 + n4)) (drop n1 content)"
      by (rule slice_join)
    moreover have "take n1 content @ take (n2 + (n3 + n4)) (drop n1 content)
            = take (n1 + (n2 + (n3 + n4))) content"
      using slice_join[of n1 0 content "n2 + (n3 + n4)"] by simp
    ultimately show ?thesis by (simp add: add.assoc)
  qed
  have fit: "index_size_of h + cmd_size h + str_size h + addon_size h \<le> int (length content)
          \<longrightarrow> int (length (index_data_of h content)) = index_size_of h
            \<and> int (length (cmd_data_of h content)) = cmd_size h
            \<and> int (length (str_data_of h content)) = str_size h
            \<and> int (length (addon_data_of h content)) = addon_size h"
    unfolding i c s a using assms by auto
  have over: "int (length content) < index_size_of h + cmd_size h + str_size h + addon_size h
          \<longrightarrow> index_data_of h content @ cmd_data_of h content @ str_data_of h content
                @ addon_data_of h content = content"
  proof
    assume "int (length content) < index_size_of h + cmd_size h + str_size h + addon_size h"
    then have "length content \<le> n1 + n2 + n3 + n4"
      using assms by (simp add: n1_def n2_def n3_def n4_def)
    then have "take (n1 + n2 + n3 + n4) content = content" by simp
    with j show "index_data_of h content @ cmd_data_of h content @ str_data_of h content
                @ addon_data_of h content = content"
      unfolding i c s a e n1_def[symmetric] n2_def[symmetric] n3_def[symmetric]
        n4_def[symmetric] by simp
  qed
  from i c s a fit over show ?thesis by (intro conjI)
qed

theorem regions_are_clamped_slices_witness:
  "0 \<le> index_size_of overflow_header \<and> 0 \<le> cmd_size overflow_header
   \<and> 0 \<le> str_size overflow_header \<and> 0 \<le> addon_size overflow_header
   \<and> int (length (read_bytes overflow_container FileHeadLen (content_len overflow_header)))
       < index_size_of overflow_header + cmd_size overflow_header
         + str_size overflow_header + addon_size overflow_header
   \<and> index_data_of overflow_header
         (read_bytes overflow_container FileHeadLen (content_len overflow_header))
       @ cmd_data_of overflow_header
           (read_bytes overflow_container FileHeadLen (content_len overflow_header))
       @ str_data_of overflow_header
           (read_bytes overflow_container FileHeadLen (content_len overflow_header))
       @ addon_data_of overflow_header
           (read_bytes overflow_container FileHeadLen (content_len overflow_header))
       = read_bytes overflow_container FileHeadLen (content_len overflow_header)
   \<and> 0 \<le> index_size_of scenario_header \<and> 0 \<le> cmd_size scenario_header
   \<and> 0 \<le> str_size scenario_header \<and> 0 \<le> addon_size scenario_header
   \<and> index_size_of scenario_header + cmd_size scenario_header
         + str_size scenario_header + addon_size scenario_header
       \<le> int (length (read_bytes scenario_container FileHeadLen (content_len scenario_header)))
   \<and> int (length (str_data_of scenario_header
          (read_bytes scenario_container FileHeadLen (content_len scenario_header))))
       = str_size scenario_header"
proof -
  let ?C = "read_bytes overflow_container FileHeadLen (content_len overflow_header)"
  let ?D = "read_bytes scenario_container FileHeadLen (content_len scenario_header)"
  have o: "0 \<le> index_size_of overflow_header" "0 \<le> cmd_size overflow_header"
    "0 \<le> str_size overflow_header" "0 \<le> addon_size overflow_header"
    by (simp_all add: overflow_header_def index_size_of_def)
  have n: "0 \<le> index_size_of scenario_header" "0 \<le> cmd_size scenario_header"
    "0 \<le> str_size scenario_header" "0 \<le> addon_size scenario_header"
    by (simp_all add: scenario_header_def index_size_of_def)
  have 1: "int (length ?C) < index_size_of overflow_header + cmd_size overflow_header
         + str_size overflow_header + addon_size overflow_header"
    by code_simp
  have 2: "index_size_of scenario_header + cmd_size scenario_header
         + str_size scenario_header + addon_size scenario_header \<le> int (length ?D)"
    by code_simp
  note a = regions_are_clamped_slices[OF o, of ?C]
  note b = regions_are_clamped_slices[OF n, of ?D]
  from a 1 have 3: "index_data_of overflow_header ?C @ cmd_data_of overflow_header ?C
       @ str_data_of overflow_header ?C @ addon_data_of overflow_header ?C = ?C"
    by (elim conjE) (rule mp)
  from b 2 have 4: "int (length (str_data_of scenario_header ?D)) = str_size scenario_header"
    by (elim conjE) (drule (1) mp, elim conjE, assumption)
  from o n 1 2 3 4 show ?thesis by (intro conjI)
qed

lemma overflow_header_value:
  "unpack_header (read_bytes overflow_container 0 (int FileHeadLen)) = Inr overflow_header"
  by code_simp

lemma overflow_rebuild_value:
  "process_scw ascii_range overflow_container single_document = Inr overflow_container"
  by code_simp

text \<open>
  Claim C4 as stated does not hold: on this container the four sizes add up to more than
  the content bytes, the addon region comes out empty instead of its 100 bytes, and the
  rebuild succeeds all the same.
\<close>

theorem region_overflow_counterexample:
  "unpack_header (read_bytes overflow_container 0 (int FileHeadLen)) = Inr overflow_header
   \<and> int (length (read_bytes overflow_container FileHeadLen (content_len overflow_header)))
       < index_size_of overflow_header + cmd_size overflow_header
         + str_size overflow_header + addon_size overflow_header
   \<and> addon_data_of overflow_header
         (read_bytes overflow_container FileHeadLen (content_len overflow_header)) = []
   \<and> process_scw ascii_range overflow_container single_document = Inr overflow_container"
proof -
  have 1: "int (length (read_bytes overflow_container FileHeadLen (content_len overflow_header)))
       < index_size_of overflow_header + cmd_size overflow_header
         + str_size overflow_header + addon_size overflow_header"
    by code_simp
  have 2: "addon_data_of overflow_header
         (read_bytes overflow_container FileHeadLen (content_len overflow_header)) = []"
    by code_simp
  from overflow_header_value 1 2 overflow_rebuild_value show ?thesis by (intro conjI)
qed


subsection \<open>Counts that do not agree\<close>

lemma patch_index_in_range:
  assumes "patch_index nsl sis idxs st = Inr r"
  shows "\<forall>i \<in> set idxs. 0 \<le> i \<longrightarrow> i < int (length nsl)"
  using assms
proof (induction idxs arbitrary: st)
  case Nil
  then show ?case by simp
next
  case (Cons i idxs)
  from Cons.prems obtain e st' where e: "py_index nsl i = Inr e"
    and r: "patch_index nsl sis idxs st' = Inr r"
    by (auto simp: Let_def split: sum.splits)
  from e have "0 \<le> i \<longrightarrow> i < int (length nsl)"
    by (auto simp: py_index_def split: if_splits)
  with Cons.IH[OF r] show ?case by simp
qed

lemma patch_index_raises:
  "patch_index nsl sis idxs st = Inl f \<Longrightarrow> \<exists>e. f = Raised e"
proof (induction idxs arbitrary: st)
  case Nil
  then show ?case by simp
next
  case (Cons i idxs)
  then show ?case by (auto simp: Let_def split: sum.splits)
qed

lemma not_Inr_is_Inl: "(\<And>out. r \<noteq> Inr out) \<Longrightarrow> \<exists>f. r = Inl f"
  by (cases r) auto

lemma process_scw_after_parse:
  assumes h: "unpack_header (read_bytes fb 0 (int FileHeadLen)) = Inr h"
    and cl: "- 1 \<le> content_len h"
    and p: "parse_txt txt = Inr (header_txt, new_strings)"
    and ne: "header_txt \<noteq> []" "new_strings \<noteq> []"
    and d1: "declared_count header_txt (lit ''STRING_COUNT'') = Inr a"
    and d2: "declared_count header_txt (lit ''TEXT_COUNT'') = Inr b"
  shows "process_scw c fb txt =
     (if a \<noteq> str_count h \<or> b \<noteq> text_count h then Inl CountMismatch
      else
        (case encode_all c new_strings of
           Inl e \<Rightarrow> Inl (Raised e)
         | Inr encs \<Rightarrow>
             (case patch_index encs (cmd_count h * 8) (py_range (str_count h))
                     (index_data_of h (read_bytes fb FileHeadLen (content_len h)), 0) of
                Inl f \<Rightarrow> Inl f
              | Inr res \<Rightarrow>
                  (case pack_header
                          (h\<lparr>content_len :=
                               int (length (fst res
                                     @ cmd_data_of h (read_bytes fb FileHeadLen (content_len h))
                                     @ concat encs
                                     @ addon_data_of h (read_bytes fb FileHeadLen (content_len h)))),
                             str_size := int (length (concat encs))\<rparr>) of
                     Inl e \<Rightarrow> Inl (Raised e)
                   | Inr ph \<Rightarrow>
                       Inr (ph @ fst res
                              @ cmd_data_of h (read_bytes fb FileHeadLen (content_len h))
                              @ concat encs
                              @ addon_data_of h (read_bytes fb FileHeadLen (content_len h)))))))"
  using cl ne
  by (simp add: process_scw_def f_read_def h p d1 d2 bnd_def raise_def Let_def
        split: sum.splits)

text \<open>
  Claim C5, as the code has it. For a container with a full header and a document that
  parses: if a declared count is not the container's (or is not a number), or the
  document has fewer strings than \<open>str_count\<close>, the rebuild fails, and a failed rebuild
  opens no output file. The failure is the count mismatch when the content read does
  not raise (\<open>content_len\<close> at least \<open>-1\<close>), the header of the document and its strings
  are not empty and both declared counts are numbers of which one differs. When both
  declared counts are the container's and only the strings are too few, the failure is
  another one than the count mismatch.
\<close>

theorem count_mismatch_fails:
  assumes h: "unpack_header (read_bytes fb 0 (int FileHeadLen)) = Inr h"
    and p: "parse_txt txt = Inr (header_txt, new_strings)"
  shows "(declared_count header_txt (lit ''STRING_COUNT'') \<noteq> Inr (str_count h)
          \<or> declared_count header_txt (lit ''TEXT_COUNT'') \<noteq> Inr (text_count h)
          \<or> int (length new_strings) < str_count h
        \<longrightarrow> (\<exists>f. process_scw c fb txt = Inl f))
     \<and> (- 1 \<le> content_len h \<and> header_txt \<noteq> [] \<and> new_strings \<noteq> []
          \<and> declared_count header_txt (lit ''STRING_COUNT'') = Inr a
          \<and> declared_count header_txt (lit ''TEXT_COUNT'') = Inr b
          \<and> (a \<noteq> str_count h \<or> b \<noteq> text_count h)
        \<longrightarrow> process_scw c fb txt = Inl CountMismatch)
     \<and> (declared_count header_txt (lit ''STRING_COUNT'') = Inr (str_count h)
          \<and> declared_count header_txt (lit ''TEXT_COUNT'') = Inr (text_count h)
          \<and> int (length new_strings) < str_count h
        \<longrightarrow> (\<exists>f. process_scw c fb txt = Inl f \<and> f \<noteq> CountMismatch))"
proof -
  have fails: "\<exists>f. process_scw c fb txt = Inl f"
    if bad: "declared_count header_txt (lit ''STRING_COUNT'') \<noteq> Inr (str_count h)
          \<or> declared_count header_txt (lit ''TEXT_COUNT'') \<noteq> Inr (text_count h)
          \<or> int (length new_strings) < str_count h"
  proof (rule not_Inr_is_Inl, rule notI)
    fix out assume ok: "process_scw c fb txt = Inr out"
    show False
    proof (rule process_scw_success[OF ok])
      fix h' header_txt' new_strings' new_str_list new_index off packed_header
      assume h': "unpack_header (read_bytes fb 0 (int FileHeadLen)) = Inr h'"
        and p': "parse_txt txt = Inr (header_txt', new_strings')"
        and d1: "declared_count header_txt' (lit ''STRING_COUNT'') = Inr (str_count h')"
        and d2: "declared_count header_txt' (lit ''TEXT_COUNT'') = Inr (text_count h')"
        and e: "encode_all c new_strings' = Inr new_str_list"
        and pt: "patch_index new_str_list (cmd_count h' * 8) (py_range (str_count h'))
                   (index_data_of h' (read_bytes fb FileHeadLen (content_len h')), 0)
                 = Inr (new_index, off)"
      from h h' have hh: "h' = h" by simp
      from p p' have pp: "header_txt' = header_txt" "new_strings' = new_strings" by simp_all
      from encode_all_nth[OF e] have l: "length new_str_list = length new_strings"
        by (simp add: pp)
      have "\<not> int (length new_strings) < str_count h"
      proof
        assume less: "int (length new_strings) < str_count h"
        then have "int (length new_strings) \<in> set (py_range (str_count h))"
          by (auto simp: py_range_def)
        with patch_index_in_range[OF pt, unfolded hh]
        have "0 \<le> int (length new_strings)
                \<longrightarrow> int (length new_strings) < int (length new_str_list)"
          by (rule bspec)
        then have "int (length new_strings) < int (length new_str_list)" by simp
        with l show False by simp
      qed
      with bad d1 d2 show False by (simp add: hh pp)
    qed
  qed
  have mismatch: "process_scw c fb txt = Inl CountMismatch"
    if m: "- 1 \<le> content_len h \<and> header_txt \<noteq> [] \<and> new_strings \<noteq> []
          \<and> declared_count header_txt (lit ''STRING_COUNT'') = Inr a
          \<and> declared_count header_txt (lit ''TEXT_COUNT'') = Inr b
          \<and> (a \<noteq> str_count h \<or> b \<noteq> text_count h)"
  proof -
    from m have cl: "- 1 \<le> content_len h" and ne: "header_txt \<noteq> []" "new_strings \<noteq> []"
      and d1: "declared_count header_txt (lit ''STRING_COUNT'') = Inr a"
      and d2: "declared_count header_txt (lit ''TEXT_COUNT'') = Inr b"
      and df: "a \<noteq> str_count h \<or> b \<noteq> text_count h"
      by simp_all
    show ?thesis unfolding process_scw_after_parse[OF h cl p ne d1 d2] using df by simp
  qed
  have other: "\<exists>f. process_scw c fb txt = Inl f \<and> f \<noteq> CountMismatch"
    if m: "declared_count header_txt (lit ''STRING_COUNT'') = Inr (str_count h)
          \<and> declared_count header_txt (lit ''TEXT_COUNT'') = Inr (text_count h)
          \<and> int (length new_strings) < str_count h"
  proof -
    from m fails obtain f where f: "process_scw c fb txt = Inl f" by blast
    have "f \<noteq> CountMismatch"
    proof (cases "- 1 \<le> content_len h")
      case False
      with f show ?thesis
        by (auto simp: process_scw_def f_read_def h bnd_def raise_def split: if_splits)
    next
      case cl: True
      show ?thesis
      proof (cases "header_txt = [] \<or> new_strings = []")
        case True
        with f cl show ?thesis
          by (auto simp: process_scw_def f_read_def h p bnd_def raise_def Let_def
                   split: if_splits)
      next
        case False
        then have ne: "header_txt \<noteq> []" "new_strings \<noteq> []" by simp_all
        from m have d1: "declared_count header_txt (lit ''STRING_COUNT'') = Inr (str_count h)"
          and d2: "declared_count header_txt (lit ''TEXT_COUNT'') = Inr (text_count h)"
          by simp_all
        from f show ?thesis
          unfolding process_scw_after_parse[OF h cl p ne d1 d2]
          by (auto split: sum.splits dest: patch_index_raises)
      qed
    qed
    with f show ?thesis by blast
  qed
  from fails mismatch other show ?thesis by blast
qed


lemma short_parse:
  "parse_txt short_document
     = Inr ([(lit ''STRING_COUNT'', lit ''2''), (lit ''TEXT_COUNT'', lit ''2''),
             (lit ''FILE_DESCRIPTION'', [])],
            [lit ''AB''])"
  by code_simp

theorem count_mismatch_fails_witness:
  "unpack_header (read_bytes overflow_container 0 (int FileHeadLen)) = Inr overflow_header
   \<and> parse_txt edited_document
       = Inr ([(lit ''STRING_COUNT'', lit ''2''), (lit ''TEXT_COUNT'', lit ''2''),
               (lit ''FILE_DESCRIPTION'', [])],
              [lit ''ABCD'', lit ''CD''])
   \<and> - 1 \<le> content_len overflow_header
   \<and> declared_count [(lit ''STRING_COUNT'', lit ''2''), (lit ''TEXT_COUNT'', lit ''2''),
               (lit ''FILE_DESCRIPTION'', [])] (lit ''STRING_COUNT'') = Inr 2
   \<and> declared_count [(lit ''STRING_COUNT'', lit ''2''), (lit ''TEXT_COUNT'', lit ''2''),
               (lit ''FILE_DESCRIPTION'', [])] (lit ''TEXT_COUNT'') = Inr 2
   \<and> 2 \<noteq> str_count overflow_header
   \<and> process_scw ascii_range overflow_container edited_document = Inl CountMismatch
   \<and> unpack_header (read_bytes scenario_container 0 (int FileHeadLen)) = Inr scenario_header
   \<and> parse_txt short_document
       = Inr ([(lit ''STRING_COUNT'', lit ''2''), (lit ''TEXT_COUNT'', lit ''2''),
               (lit ''FILE_DESCRIPTION'', [])],
              [lit ''AB''])
   \<and> 2 = str_count scenario_header \<and> 2 = text_count scenario_header
   \<and> int (length [lit ''AB'']) < str_count scenario_header
   \<and> (\<exists>f. process_scw ascii_range scenario_container short_document = Inl f
            \<and> f \<noteq> CountMismatch)"
proof -
  let ?hdr = "[(lit ''STRING_COUNT'', lit ''2''), (lit ''TEXT_COUNT'', lit ''2''),
               (lit ''FILE_DESCRIPTION'', [])]"
  have 1: "declared_count ?hdr (lit ''STRING_COUNT'') = Inr 2" by code_simp
  have 2: "declared_count ?hdr (lit ''TEXT_COUNT'') = Inr 2" by code_simp
  have 3: "2 \<noteq> str_count overflow_header" by (simp add: overflow_header_def)
  have cl: "- 1 \<le> content_len overflow_header" by (simp add: overflow_header_def)
  have ne: "?hdr \<noteq> []" "[lit ''ABCD'', lit ''CD''] \<noteq> []" by simp_all
  note a = count_mismatch_fails[OF overflow_header_value edited_parse, where a = 2 and b = 2
             and c = ascii_range]
  have 4: "process_scw ascii_range overflow_container edited_document = Inl CountMismatch"
    by (rule a[THEN conjunct2, THEN conjunct1, THEN mp]) (intro conjI cl ne 1 2 disjI1 3)
  have 5: "int (length [lit ''AB'']) < str_count scenario_header"
    by (simp add: scenario_header_def)
  have 6: "2 = str_count scenario_header" "2 = text_count scenario_header"
    by (simp_all add: scenario_header_def)
  note b = count_mismatch_fails[OF scenario_header_value short_parse, where a = 2 and b = 2
             and c = ascii_range]
  have 7: "\<exists>f. process_scw ascii_range scenario_container short_document = Inl f
            \<and> f \<noteq> CountMismatch"
    by (rule b[THEN conjunct2, THEN conjunct2, THEN mp])
       (intro conjI 1[unfolded 6(1)] 2[unfolded 6(2)] 5)
  from overflow_header_value edited_parse cl 1 2 3 4 scenario_header_value short_parse 6 5 7
  show ?thesis by (intro conjI)
qed

text \<open>
  Claim C5 as stated does not hold for the kind of failure: a document with the right
  declared counts and one string for a container of two fails in the index loop with
  an out-of-range error, handled by the general handler, not as a count mismatch.
\<close>

theorem fewer_strings_counterexample:
  "unpack_header (read_bytes scenario_container 0 (int FileHeadLen)) = Inr scenario_header
   \<and> parse_txt short_document
       = Inr ([(lit ''STRING_COUNT'', lit ''2''), (lit ''TEXT_COUNT'', lit ''2''),
               (lit ''FILE_DESCRIPTION'', [])],
              [lit ''AB''])
   \<and> int (length [lit ''AB'']) < str_count scenario_header
   \<and> process_scw ascii_range scenario_container short_document = Inl (Raised IndexError)
   \<and> process_scw ascii_range scenario_container short_document \<noteq> Inl CountMismatch"
proof -
  have 1: "int (length [lit ''AB'']) < str_count scenario_header"
    by (simp add: scenario_header_def)
  have 2: "process_scw ascii_range scenario_container short_document = Inl (Raised IndexError)"
    by code_simp
  then have 3: "process_scw ascii_range scenario_container short_document \<noteq> Inl CountMismatch"
    by simp
  from scenario_header_value short_parse 1 2 3 show ?thesis by (intro conjI)
qed

end
